theory Spec2Isabelle
  imports Main
begin

section \<open>C strings and buffers\<close>

text \<open>
  A C string is modelled as a \<^typ>\<open>string\<close> holding the bytes before the terminating NUL.
  \<open>strncpy dst src n\<close> into a zero-filled field of \<open>n + 1\<close> bytes keeps the first \<open>n\<close>
  bytes of the source.
\<close>

fun take_bytes :: "int \<Rightarrow> 'a list \<Rightarrow> 'a list" where
  "take_bytes n [] = []"
| "take_bytes n (x # xs) = (if n \<le> 0 then [] else x # take_bytes (n - 1) xs)"

definition strncpy :: "int \<Rightarrow> string \<Rightarrow> string" where
  "strncpy n src = take_bytes n src"

definition MAX_FILENAME :: int where
  "MAX_FILENAME = 256"

section \<open>Name server: the LRU lookup cache (cache.c)\<close>

definition CACHE_SIZE :: nat where
  "CACHE_SIZE = 16"

record CacheEntry =
  ce_filename :: string
  ce_ss_index :: int
  is_valid :: bool
  last_used_time :: int

text \<open>\<open>init_cache\<close>: \<open>memset(cache, 0, sizeof(cache))\<close>.\<close>

definition init_cache :: "CacheEntry list" where
  "init_cache = replicate CACHE_SIZE
     \<lparr>ce_filename = [], ce_ss_index = 0, is_valid = False, last_used_time = 0\<rparr>"

text \<open>
  The scan shared by \<open>cache_lookup\<close> and \<open>cache_invalidate\<close>: the index of the first slot
  that is valid and carries the file name (\<open>found_index\<close>), if any.
\<close>

fun cache_find :: "string \<Rightarrow> CacheEntry list \<Rightarrow> nat option" where
  "cache_find filename [] = None"
| "cache_find filename (e # es) =
     (if is_valid e \<and> ce_filename e = filename then Some 0
      else map_option Suc (cache_find filename es))"

text \<open>
  \<open>cache_lookup\<close>: on a hit the slot's timestamp becomes \<open>time(NULL)\<close> (the argument
  \<open>now\<close>) and the cached index is returned; on a miss the result is \<open>-1\<close>.
\<close>

definition cache_lookup :: "int \<Rightarrow> string \<Rightarrow> CacheEntry list \<Rightarrow> int \<times> CacheEntry list" where
  "cache_lookup now filename cache =
     (case cache_find filename cache of
        None \<Rightarrow> (- 1, cache)
      | Some found_index \<Rightarrow>
          (ce_ss_index (cache ! found_index),
           cache[found_index := (cache ! found_index)\<lparr>last_used_time := now\<rparr>]))"

text \<open>
  The slot search of \<open>cache_add\<close>: the loop stops at the first invalid slot; otherwise it
  tracks the first slot whose timestamp is strictly below the running \<open>oldest_time\<close>,
  which starts at \<open>time(NULL)\<close>, with \<open>lru_index\<close> starting at 0.
\<close>

fun cache_add_scan :: "CacheEntry list \<Rightarrow> nat \<Rightarrow> nat \<Rightarrow> int \<Rightarrow> nat" where
  "cache_add_scan [] i lru_index oldest_time = lru_index"
| "cache_add_scan (e # es) i lru_index oldest_time =
     (if \<not> is_valid e then i
      else if last_used_time e < oldest_time
        then cache_add_scan es (Suc i) i (last_used_time e)
        else cache_add_scan es (Suc i) lru_index oldest_time)"

definition cache_add :: "int \<Rightarrow> string \<Rightarrow> int \<Rightarrow> CacheEntry list \<Rightarrow> CacheEntry list" where
  "cache_add now filename ss_index cache =
     (let lru_index = cache_add_scan cache 0 0 now
      in cache[lru_index :=
           \<lparr>ce_filename = strncpy (MAX_FILENAME - 1) filename, ce_ss_index = ss_index,
            is_valid = True, last_used_time = now\<rparr>])"

definition cache_invalidate :: "string \<Rightarrow> CacheEntry list \<Rightarrow> CacheEntry list" where
  "cache_invalidate filename cache =
     (case cache_find filename cache of
        None \<Rightarrow> cache
      | Some i \<Rightarrow> cache[i := (cache ! i)\<lparr>is_valid := False\<rparr>])"

section \<open>Name server: the trie of file records (search.c)\<close>

datatype PermissionType = PERM_NONE | PERM_READ | PERM_WRITE

fun perm_value :: "PermissionType \<Rightarrow> nat" where
  "perm_value PERM_NONE = 0"
| "perm_value PERM_READ = 1"
| "perm_value PERM_WRITE = 2"

definition MAX_ACL_ENTRIES :: nat where
  "MAX_ACL_ENTRIES = 10"

definition TRIE_CHAR_SET_SIZE :: nat where
  "TRIE_CHAR_SET_SIZE = 128"

record AclEntry =
  acl_username :: string
  acl_permission :: PermissionType

text \<open>The array \<open>acl[MAX_ACL_ENTRIES]\<close> with its \<open>acl_count\<close> is the list \<open>acl\<close>.\<close>

record FileRecord =
  fr_filename :: string
  owner_username :: string
  fr_ss_index :: int
  folder :: string
  word_count :: int
  char_count :: int
  created :: int
  modified :: int
  last_accessed :: int
  last_accessed_by :: string
  acl :: "AclEntry list"

datatype TrieNode =
  TrieNode (file_info: "FileRecord option") (children: "TrieNode option list")

definition create_node :: TrieNode where
  "create_node = TrieNode None (replicate TRIE_CHAR_SET_SIZE None)"

text \<open>
  \<open>index = (int)filename[i]\<close>; the test \<open>index < 0 || index >= TRIE_CHAR_SET_SIZE\<close> holds
  exactly for the bytes 128..255, whether \<open>char\<close> is signed or not.
\<close>

definition char_index :: "char \<Rightarrow> nat" where
  "char_index c = of_char c"

definition valid_index :: "char \<Rightarrow> bool" where
  "valid_index c = ((of_char c :: int) < int TRIE_CHAR_SET_SIZE)"

text \<open>\<open>node->children[index]\<close>, for an index inside the array.\<close>

definition child :: "TrieNode \<Rightarrow> nat \<Rightarrow> TrieNode option" where
  "child node i = (if i < length (children node) then children node ! i else None)"

text \<open>
  \<open>find_file_record\<close>: bytes outside the character set are skipped (\<open>continue\<close>), a
  missing child ends the walk with NULL.
\<close>

fun find_file_record :: "TrieNode \<Rightarrow> string \<Rightarrow> FileRecord option" where
  "find_file_record current [] = file_info current"
| "find_file_record current (c # cs) =
     (if \<not> valid_index c then find_file_record current cs
      else case child current (char_index c) of
             None \<Rightarrow> None
           | Some next \<Rightarrow> find_file_record next cs)"

text \<open>
  Writing through the pointer returned by \<open>find_file_record\<close>: the record of the node the
  walk ends in is replaced; nothing changes when the walk fails.
\<close>

fun set_file_record :: "TrieNode \<Rightarrow> string \<Rightarrow> FileRecord option \<Rightarrow> TrieNode" where
  "set_file_record current [] v = TrieNode v (children current)"
| "set_file_record current (c # cs) v =
     (if \<not> valid_index c then set_file_record current cs v
      else case child current (char_index c) of
             None \<Rightarrow> current
           | Some next \<Rightarrow>
               TrieNode (file_info current)
                 ((children current)[char_index c := Some (set_file_record next cs v)]))"

text \<open>
  The walk of \<open>search_add_file\<close> and \<open>search_rebuild_add_file\<close>: invalid bytes are
  skipped, missing children are created, and \<open>link\<close> is what the function then does with
  \<open>current->file_info\<close>.
\<close>

fun walk_create :: "TrieNode \<Rightarrow> string \<Rightarrow> (FileRecord option \<Rightarrow> FileRecord option) \<Rightarrow> TrieNode" where
  "walk_create current [] link = TrieNode (link (file_info current)) (children current)"
| "walk_create current (c # cs) link =
     (if \<not> valid_index c then walk_create current cs link
      else TrieNode (file_info current)
             ((children current)[char_index c :=
                Some (walk_create
                        (case child current (char_index c) of
                           None \<Rightarrow> create_node
                         | Some next \<Rightarrow> next) cs link)]))"

definition search_add_file :: "TrieNode \<Rightarrow> string \<Rightarrow> int \<Rightarrow> string \<Rightarrow> TrieNode" where
  "search_add_file root filename ss_index owner =
     walk_create root filename
       (\<lambda>fi. case fi of
          Some r \<Rightarrow> Some r
        | None \<Rightarrow>
            Some \<lparr>fr_filename = strncpy (MAX_FILENAME - 1) filename,
                  owner_username = strncpy 63 owner, fr_ss_index = ss_index, folder = [],
                  word_count = 0, char_count = 0, created = 0, modified = 0,
                  last_accessed = 0, last_accessed_by = [], acl = []\<rparr>)"

text \<open>
  The trie part of \<open>search_find_file\<close>: the server index of the record, or \<open>-1\<close>.
\<close>

definition trie_ss_index :: "TrieNode \<Rightarrow> string \<Rightarrow> int" where
  "trie_ss_index root filename =
     (case find_file_record root filename of
        None \<Rightarrow> - 1
      | Some record \<Rightarrow> fr_ss_index record)"

text \<open>
  \<open>search_find_file\<close>: the cache first, then the trie; a record found in the trie is
  added to the cache. The calls to \<open>time(NULL)\<close> made while serving one request are
  taken to fall in the same second, \<open>now\<close>.
\<close>

definition search_find_file ::
  "int \<Rightarrow> string \<Rightarrow> TrieNode \<times> CacheEntry list \<Rightarrow> int \<times> CacheEntry list" where
  "search_find_file now filename st =
     (let (cached_index, cache1) = cache_lookup now filename (snd st)
      in if cached_index \<noteq> - 1 then (cached_index, cache1)
         else (let ss_index = trie_ss_index (fst st) filename
               in if ss_index \<noteq> - 1
                  then (ss_index, cache_add now filename ss_index cache1)
                  else (ss_index, cache1)))"

text \<open>A sequence of lookups, each at its own clock reading, on a fixed trie.\<close>

fun run_finds :: "TrieNode \<Rightarrow> (int \<times> string) list \<Rightarrow> CacheEntry list \<Rightarrow> CacheEntry list" where
  "run_finds root [] cache = cache"
| "run_finds root ((now, f) # rest) cache =
     run_finds root rest (snd (search_find_file now f (root, cache)))"

subsection \<open>Access control on a record\<close>

fun find_acl_index :: "AclEntry list \<Rightarrow> string \<Rightarrow> nat option" where
  "find_acl_index [] target = None"
| "find_acl_index (a # as) target =
     (if acl_username a = target then Some 0 else map_option Suc (find_acl_index as target))"

text \<open>
  \<open>search_grant_permission\<close>: \<open>-1\<close> when the file is unknown, the requester is not the
  owner, or the ACL is full; otherwise the target's entry is updated in place or appended.
\<close>

definition search_grant_permission ::
  "TrieNode \<Rightarrow> string \<Rightarrow> string \<Rightarrow> string \<Rightarrow> PermissionType \<Rightarrow> int \<times> TrieNode" where
  "search_grant_permission root filename owner target permission =
     (case find_file_record root filename of
        None \<Rightarrow> (- 1, root)
      | Some record \<Rightarrow>
          if owner_username record \<noteq> owner then (- 1, root)
          else (case find_acl_index (acl record) target of
                  Some found_index \<Rightarrow>
                    (0, set_file_record root filename
                          (Some (record\<lparr>acl := (acl record)[found_index :=
                             (acl record ! found_index)\<lparr>acl_permission := permission\<rparr>]\<rparr>)))
                | None \<Rightarrow>
                    if length (acl record) \<ge> MAX_ACL_ENTRIES then (- 1, root)
                    else (0, set_file_record root filename
                               (Some (record\<lparr>acl := acl record @
                                  [\<lparr>acl_username = strncpy 63 target,
                                    acl_permission = permission\<rparr>]\<rparr>)))))"

text \<open>The registration payload an SS sends for each of its files.\<close>

record SSFileRecordPayload =
  p_filename :: string
  p_owner_username :: string
  p_acl :: "AclEntry list"
  p_word_count :: int
  p_char_count :: int
  p_created :: int
  p_modified :: int
  p_last_accessed :: int
  p_last_accessed_by :: string
  p_folder :: string

definition payload_record :: "int \<Rightarrow> SSFileRecordPayload \<Rightarrow> FileRecord" where
  "payload_record ss_index p =
     \<lparr>fr_filename = strncpy (MAX_FILENAME - 1) (p_filename p),
      owner_username = strncpy 63 (p_owner_username p),
      fr_ss_index = ss_index,
      folder = (if p_folder p \<noteq> [] then strncpy (MAX_FILENAME - 1) (p_folder p) else []),
      word_count = p_word_count p, char_count = p_char_count p,
      created = p_created p, modified = p_modified p, last_accessed = p_last_accessed p,
      last_accessed_by = strncpy 63 (p_last_accessed_by p),
      acl = map (\<lambda>a. \<lparr>acl_username = strncpy 63 (acl_username a),
                        acl_permission = acl_permission a\<rparr>) (p_acl p)\<rparr>"

text \<open>
  \<open>search_rebuild_add_file\<close>: a record already claimed by another server is kept (the
  conflict is logged); otherwise the record is built from the payload and linked.
\<close>

definition search_rebuild_add_file :: "TrieNode \<Rightarrow> int \<Rightarrow> SSFileRecordPayload \<Rightarrow> TrieNode" where
  "search_rebuild_add_file root ss_index p =
     walk_create root (p_filename p)
       (\<lambda>fi. case fi of
          Some old \<Rightarrow>
            if fr_ss_index old = ss_index then Some (payload_record ss_index p) else Some old
        | None \<Rightarrow> Some (payload_record ss_index p))"

text \<open>The invariant of the data model: the owner has no ACL entry of its own.\<close>

definition owner_not_in_acl :: "FileRecord \<Rightarrow> bool" where
  "owner_not_in_acl r = (owner_username r \<notin> set (map acl_username (acl r)))"

text \<open>The invariant on the whole trie: it holds of every record a lookup can return.\<close>

definition acl_invariant :: "TrieNode \<Rightarrow> bool" where
  "acl_invariant root =
     (\<forall>name r. find_file_record root name = Some r \<longrightarrow> owner_not_in_acl r)"

subsection \<open>Deleting a record\<close>

text \<open>
  The walk of \<open>search_delete_file\<close> differs from \<open>find_file_record\<close>: a byte outside the
  character set ends it with "not found" instead of being skipped.
\<close>

fun find_node_strict :: "TrieNode \<Rightarrow> string \<Rightarrow> TrieNode option" where
  "find_node_strict current [] = Some current"
| "find_node_strict current (c # cs) =
     (if \<not> valid_index c then None
      else case child current (char_index c) of
             None \<Rightarrow> None
           | Some next \<Rightarrow> find_node_strict next cs)"

text \<open>Writing \<open>current->file_info\<close> at the node that walk ends in.\<close>

fun store_strict :: "TrieNode \<Rightarrow> string \<Rightarrow> FileRecord option \<Rightarrow> TrieNode" where
  "store_strict current [] v = TrieNode v (children current)"
| "store_strict current (c # cs) v =
     (if \<not> valid_index c then current
      else case child current (char_index c) of
             None \<Rightarrow> current
           | Some next \<Rightarrow>
               TrieNode (file_info current)
                 ((children current)[char_index c := Some (store_strict next cs v)]))"

text \<open>
  \<open>search_delete_file\<close>: \<open>-1\<close> not found, \<open>-2\<close> access denied, else the \<open>ss_index\<close>
  of the record, which is freed and unlinked (\<open>current->file_info = NULL\<close>).
\<close>

definition search_delete_file :: "TrieNode \<Rightarrow> string \<Rightarrow> string \<Rightarrow> int \<times> TrieNode" where
  "search_delete_file root filename username =
     (case find_node_strict root filename of
        None \<Rightarrow> (- 1, root)
      | Some current \<Rightarrow>
          (case file_info current of
             None \<Rightarrow> (- 1, root)
           | Some r \<Rightarrow>
               if owner_username r \<noteq> username then (- 2, root)
               else (fr_ss_index r, store_strict root filename None)))"

text \<open>\<open>search_set_file_folder\<close> walks the same way and rewrites the folder of the record.\<close>

definition search_set_file_folder ::
  "TrieNode \<Rightarrow> string \<Rightarrow> string \<Rightarrow> string \<Rightarrow> int \<times> TrieNode" where
  "search_set_file_folder root filename fname owner =
     (case find_node_strict root filename of
        None \<Rightarrow> (- 1, root)
      | Some current \<Rightarrow>
          (case file_info current of
             None \<Rightarrow> (- 1, root)
           | Some r \<Rightarrow>
               if owner_username r \<noteq> owner then (- 2, root)
               else (fr_ss_index r,
                     store_strict root filename
                       (Some (r\<lparr>folder := (if length fname > 0
                                             then strncpy (MAX_FILENAME - 1) fname else [])\<rparr>)))))"

text \<open>
  \<open>handle_delete_request\<close> (client_handler.c), as far as the name server's own state
  goes: the reply sent to the client and the new trie and cache. Forwarding the delete to
  the storage server does not change the reply.
\<close>

datatype ns_reply = MSG_ACK | MSG_ERROR string

definition handle_delete_request ::
  "string \<Rightarrow> string \<Rightarrow> TrieNode \<times> CacheEntry list \<Rightarrow> ns_reply \<times> (TrieNode \<times> CacheEntry list)" where
  "handle_delete_request filename client_username st =
     (let (ss_index, root') = search_delete_file (fst st) filename client_username
      in if ss_index = - 1 then (MSG_ERROR ''File not found.'', st)
         else if ss_index = - 2 then (MSG_ERROR ''Access Denied (Only owner can delete).'', st)
         else (MSG_ACK, (root', cache_invalidate filename (snd st))))"

subsection \<open>Folders\<close>

record FolderRecord =
  foldername :: string
  fo_owner_username :: string

record MoveFileUpdate =
  mu_filename :: string
  mu_folder :: string
  mu_ss_index :: int

definition MAX_FOLDERS :: nat where
  "MAX_FOLDERS = 1024"

fun find_folder_index :: "FolderRecord list \<Rightarrow> string \<Rightarrow> nat option" where
  "find_folder_index [] name = None"
| "find_folder_index (f # fs) name =
     (if foldername f = name then Some 0 else map_option Suc (find_folder_index fs name))"

definition search_add_folder :: "string \<Rightarrow> string \<Rightarrow> FolderRecord list \<Rightarrow> int \<times> FolderRecord list" where
  "search_add_folder fname owner registry =
     (if length fname = 0 then (- 1, registry)
      else if find_folder_index registry fname \<noteq> None then (- 1, registry)
      else if length registry \<ge> MAX_FOLDERS then (- 1, registry)
      else (0, registry @ [\<lparr>foldername = strncpy (MAX_FILENAME - 1) fname,
                             fo_owner_username = strncpy 63 owner\<rparr>]))"

text \<open>\<open>starts_with\<close>: \<open>strncmp(s, prefix, strlen(prefix)) == 0\<close>, true for the empty prefix.\<close>

definition starts_with :: "string \<Rightarrow> string \<Rightarrow> bool" where
  "starts_with s prefix =
     (if length prefix = 0 then True else take (length prefix) s = prefix)"

text \<open>
  The new folder of a record whose folder starts with \<open>src\<close>: \<open>rest\<close> is what follows the
  first \<open>strlen(src)\<close> bytes, less one leading slash; \<open>snprintf\<close> keeps at most
  \<open>MAX_FILENAME - 1\<close> bytes.
\<close>

definition new_folder :: "string \<Rightarrow> string \<Rightarrow> string \<Rightarrow> string" where
  "new_folder src dst fld =
     (if length src = 0 then strncpy (MAX_FILENAME - 1) dst
      else (let rest0 = drop (length src) fld;
                rest = (case rest0 of c # cs \<Rightarrow> if c = CHR ''/'' then cs else rest0 | [] \<Rightarrow> rest0)
            in if length rest > 0 then take_bytes (MAX_FILENAME - 1) (dst @ ''/'' @ rest)
               else take_bytes (MAX_FILENAME - 1) dst))"

definition move_record :: "string \<Rightarrow> string \<Rightarrow> FileRecord \<Rightarrow> FileRecord" where
  "move_record src dst r =
     (if starts_with (folder r) src
      then r\<lparr>folder := strncpy (MAX_FILENAME - 1) (new_folder src dst (folder r))\<rparr>
      else r)"

text \<open>The walk over every node of the trie, rewriting the records in place.\<close>

fun move_walk :: "string \<Rightarrow> string \<Rightarrow> TrieNode \<Rightarrow> TrieNode" where
  "move_walk src dst (TrieNode fi ch) =
     TrieNode (map_option (move_record src dst) fi) (map (map_option (move_walk src dst)) ch)"

text \<open>
  The order in which the explicit stack visits the records: a node, then its children
  from the highest index down (they are pushed in index order and popped from the top).
\<close>

fun stack_order :: "TrieNode \<Rightarrow> FileRecord list" where
  "stack_order (TrieNode fi ch) =
     (case fi of None \<Rightarrow> [] | Some r \<Rightarrow> [r]) @
     concat (map (\<lambda>c. case c of None \<Rightarrow> [] | Some n \<Rightarrow> stack_order n) (rev ch))"

definition search_move_folder ::
  "string \<Rightarrow> string \<Rightarrow> string \<Rightarrow> nat \<Rightarrow> FolderRecord list \<times> TrieNode \<Rightarrow>
   int \<times> MoveFileUpdate list \<times> (FolderRecord list \<times> TrieNode)" where
  "search_move_folder src dst owner max_updates st =
     (case find_folder_index (fst st) src of
        None \<Rightarrow> (- 1, [], st)
      | Some src_idx \<Rightarrow>
          if fo_owner_username (fst st ! src_idx) \<noteq> owner then (- 1, [], st)
          else if find_folder_index (fst st) dst \<noteq> None then (- 1, [], st)
          else (let registry = (fst st)[src_idx :=
                      (fst st ! src_idx)\<lparr>foldername := strncpy (MAX_FILENAME - 1) dst\<rparr>];
                    out_updates = take max_updates
                      (map (\<lambda>r. \<lparr>mu_filename = fr_filename r,
                                   mu_folder = folder (move_record src dst r),
                                   mu_ss_index = fr_ss_index r\<rparr>)
                           (filter (\<lambda>r. starts_with (folder r) src) (stack_order (snd st))))
                in (int (length out_updates), out_updates,
                    (registry, move_walk src dst (snd st)))))"

subsection \<open>Concrete name-server states used in the examples\<close>

definition names17 :: "string list" where
  "names17 = [''a'', ''b'', ''c'', ''d'', ''e'', ''f'', ''g'', ''h'', ''i'', ''j'', ''k'',
              ''l'', ''m'', ''n'', ''o'', ''p'', ''q'']"

definition trie17 :: TrieNode where
  "trie17 = fold (\<lambda>n t. search_add_file t n 0 ''alice'') names17 create_node"

definition mk_entry :: "int \<times> string \<times> int \<Rightarrow> CacheEntry" where
  "mk_entry x = \<lparr>ce_filename = fst (snd x), ce_ss_index = snd (snd x), is_valid = True,
                 last_used_time = fst x\<rparr>"

definition empty_entry :: CacheEntry where
  "empty_entry = \<lparr>ce_filename = [], ce_ss_index = 0, is_valid = False, last_used_time = 0\<rparr>"

definition found_ss :: "TrieNode \<Rightarrow> int \<times> string \<Rightarrow> int \<times> string \<times> int" where
  "found_ss root x = (fst x, snd x, trie_ss_index root (snd x))"

definition lookups16 :: "(int \<times> string) list" where
  "lookups16 = map (\<lambda>n. (100, n)) (take 16 names17)"

definition cache16 :: "CacheEntry list" where
  "cache16 = run_finds trie17 lookups16 init_cache"

text \<open>
  Folders \<open>a\<close> and \<open>ab\<close>, both of alice; file \<open>f1\<close> moved into \<open>a\<close>, file \<open>f2\<close> into \<open>ab\<close>.
\<close>

definition folders_ab :: "FolderRecord list" where
  "folders_ab = snd (search_add_folder ''ab'' ''alice'' (snd (search_add_folder ''a'' ''alice'' [])))"

definition trie_ab :: TrieNode where
  "trie_ab =
     snd (search_set_file_folder
            (snd (search_set_file_folder
                    (search_add_file (search_add_file create_node ''f1'' 0 ''alice'') ''f2'' 0 ''alice'')
                    ''f1'' ''a'' ''alice''))
            ''f2'' ''ab'' ''alice'')"

text \<open>A file whose one-byte name lies outside the 7-bit character set of the trie.\<close>

definition trie_e9 :: TrieNode where
  "trie_e9 = search_add_file create_node [CHR 0xE9] 0 ''alice''"

definition trie_f :: TrieNode where
  "trie_f = search_add_file create_node ''f'' 0 ''alice''"

text \<open>The cache after one lookup of \<open>f\<close>, which leaves an entry for \<open>f\<close> in slot 0.\<close>

definition cache_f :: "CacheEntry list" where
  "cache_f = snd (search_find_file 100 ''f'' (trie_f, init_cache))"

section \<open>Storage server: scanning and printing text\<close>

text \<open>
  The storage server reads its commands and its log files with \<open>sscanf\<close>, \<open>strtok\<close> and
  \<open>fgets\<close>, and writes them with \<open>fprintf\<close>. The pieces of those functions the server
  uses are written here as functions on strings. Buffers are taken to be large enough
  for the words and names they receive: a \<open>strcpy\<close> or \<open>strcat\<close> that would overrun
  its array has no defined behaviour and no counterpart here.
\<close>

definition NUL :: char where
  "NUL = CHR 0x00"

text \<open>\<open>isspace\<close> in the C locale: space, \<open>\t \n \v \f \r\<close>.\<close>

definition isspace :: "char \<Rightarrow> bool" where
  "isspace c = (c \<in> set [CHR '' '', CHR 0x09, CHR 0x0A, CHR 0x0B, CHR 0x0C, CHR 0x0D])"

definition isdigit :: "char \<Rightarrow> bool" where
  "isdigit c = (48 \<le> (of_char c :: int) \<and> (of_char c :: int) \<le> 57)"

definition digit_value :: "char \<Rightarrow> int" where
  "digit_value c = of_char c - 48"

definition digit_char :: "int \<Rightarrow> char" where
  "digit_char d = char_of (48 + d)"

function dec_digits :: "int \<Rightarrow> string" where
  "dec_digits i =
     (if i < 10 then [digit_char i] else dec_digits (i div 10) @ [digit_char (i mod 10)])"
  by pat_completeness auto
termination
  by (relation "measure nat") auto

text \<open>The output of \<open>%d\<close>, \<open>%ld\<close> and \<open>%zu\<close>.\<close>

definition dec :: "int \<Rightarrow> string" where
  "dec i = (if i < 0 then CHR ''-'' # dec_digits (- i) else dec_digits i)"

text \<open>A buffer read as a C string ends at its first NUL byte.\<close>

definition c_str :: "string \<Rightarrow> string" where
  "c_str bytes = takeWhile (\<lambda>c. c \<noteq> NUL) bytes"

text \<open>
  \<open>fread(content, 1, sizeof(content) - 1, f)\<close> into a buffer of 8192 bytes: the bytes
  read (their number is \<open>bytes_read\<close>).
\<close>

definition fread_8k :: "string \<Rightarrow> string" where
  "fread_8k file_bytes = take_bytes 8191 file_bytes"

text \<open>
  All tokens that successive \<open>strtok\<close> calls return: the maximal runs of bytes that are
  not separators. \<open>cur\<close> is the token being read.
\<close>

fun strtok_from :: "char list \<Rightarrow> string \<Rightarrow> string \<Rightarrow> string list" where
  "strtok_from seps cur [] = (if cur = [] then [] else [cur])"
| "strtok_from seps cur (c # cs) =
     (if c \<in> set seps
      then (if cur = [] then strtok_from seps [] cs else cur # strtok_from seps [] cs)
      else strtok_from seps (cur @ [c]) cs)"

definition strtok_all :: "char list \<Rightarrow> string \<Rightarrow> string list" where
  "strtok_all seps s = strtok_from seps [] s"

text \<open>Joining words with one space between them, as the \<open>strcat\<close> loops do.\<close>

fun join_words :: "string list \<Rightarrow> string" where
  "join_words [] = []"
| "join_words [w] = w"
| "join_words (w # ws) = w @ '' '' @ join_words ws"

subsection \<open>Conversions of \<open>sscanf\<close>\<close>

text \<open>Each conversion returns the value and the rest of the input, or fails.\<close>

definition skip_ws :: "string \<Rightarrow> string" where
  "skip_ws s = dropWhile isspace s"

text \<open>
  \<open>%ld\<close> and \<open>%d\<close>: blanks, an optional sign, at least one digit. The C library
  converts the digits with \<open>strtol\<close>, which stops at \<open>LONG_MIN\<close> and \<open>LONG_MAX\<close> (64 bits);
  \<open>%ld\<close> stores that value, \<open>%d\<close> stores its cast to a 32-bit \<open>int\<close>.
\<close>

definition scan_digits :: "string \<Rightarrow> (int \<times> string) option" where
  "scan_digits s =
     (let ds = takeWhile isdigit s
      in if ds = [] then None
         else Some (foldl (\<lambda>a c. 10 * a + digit_value c) 0 ds, dropWhile isdigit s))"

definition LONG_MAX :: int where
  "LONG_MAX = 9223372036854775807"

definition strtol_range :: "int \<Rightarrow> int" where
  "strtol_range v =
     (if v > LONG_MAX then LONG_MAX else if v < - LONG_MAX - 1 then - LONG_MAX - 1 else v)"

definition to_int32 :: "int \<Rightarrow> int" where
  "to_int32 v = (v + 2147483648) mod 4294967296 - 2147483648"

definition scan_ld :: "string \<Rightarrow> (int \<times> string) option" where
  "scan_ld s =
     (case skip_ws s of
        [] \<Rightarrow> None
      | c # cs \<Rightarrow>
          if c = CHR ''-'' then map_option (\<lambda>(v, r). (strtol_range (- v), r)) (scan_digits cs)
          else if c = CHR ''+'' then map_option (\<lambda>(v, r). (strtol_range v, r)) (scan_digits cs)
          else map_option (\<lambda>(v, r). (strtol_range v, r)) (scan_digits (c # cs)))"

definition scan_d :: "string \<Rightarrow> (int \<times> string) option" where
  "scan_d s = map_option (\<lambda>(v, r). (to_int32 v, r)) (scan_ld s)"

text \<open>\<open>%Ns\<close>: blanks, then at most \<open>N\<close> bytes up to the next blank; at least one.\<close>

definition scan_s :: "int \<Rightarrow> string \<Rightarrow> (string \<times> string) option" where
  "scan_s width s =
     (let t = skip_ws s; w = take_bytes width (takeWhile (\<lambda>c. \<not> isspace c) t)
      in if w = [] then None else Some (w, drop (length w) t))"

text \<open>\<open>%N[^x]\<close>: at most \<open>N\<close> bytes other than \<open>x\<close>, blanks included; at least one.\<close>

definition scan_not :: "char \<Rightarrow> int \<Rightarrow> string \<Rightarrow> (string \<times> string) option" where
  "scan_not x width s =
     (let w = take_bytes width (takeWhile (\<lambda>c. c \<noteq> x) s)
      in if w = [] then None else Some (w, drop (length w) s))"

text \<open>A literal of the format: the input has to continue with exactly these bytes.\<close>

definition scan_lit :: "string \<Rightarrow> string \<Rightarrow> string option" where
  "scan_lit lit s = (if take (length lit) s = lit then Some (drop (length lit) s) else None)"

text \<open>
  The line a handler works on: \<open>recv\<close> of at most \<open>BUF_SZ - 1\<close> bytes, cut at the first
  newline.
\<close>

definition BUF_SZ :: int where
  "BUF_SZ = 2048"

definition recv_line :: "string \<Rightarrow> string" where
  "recv_line bytes = takeWhile (\<lambda>c. c \<noteq> CHR 0x0A) (c_str (take_bytes (BUF_SZ - 1) bytes))"

text \<open>\<open>sscanf(buf, "%d %2047[^\n]", &word_idx, new_content) == 2\<close>.\<close>

definition scan_insert :: "string \<Rightarrow> (int \<times> string) option" where
  "scan_insert buf =
     (case scan_d buf of
        None \<Rightarrow> None
      | Some (word_idx, r) \<Rightarrow>
          (case scan_not (CHR 0x0A) 2047 (skip_ws r) of
             None \<Rightarrow> None
           | Some (new_content, r') \<Rightarrow> Some (word_idx, new_content)))"

text \<open>
  \<open>matched = sscanf(buf, "%63s %255s %[^\n]", cmd, fname, rest)\<close>: the fields that were
  assigned, in order.
\<close>

definition scan_command :: "string \<Rightarrow> string list" where
  "scan_command buf =
     (case scan_s 63 buf of
        None \<Rightarrow> []
      | Some (cmd, r1) \<Rightarrow>
          (case scan_s 255 r1 of
             None \<Rightarrow> [cmd]
           | Some (fname, r2) \<Rightarrow>
               (case skip_ws r2 of
                  [] \<Rightarrow> [cmd, fname]
                | c # cs \<Rightarrow> [cmd, fname, takeWhile (\<lambda>x. x \<noteq> CHR 0x0A) (c # cs)])))"

text \<open>\<open>sscanf(buf, "WRITE %s %d", fname_write, &sentence_num) == 2\<close>.\<close>

definition scan_write :: "string \<Rightarrow> (string \<times> int) option" where
  "scan_write buf =
     (case scan_lit ''WRITE'' buf of
        None \<Rightarrow> None
      | Some r \<Rightarrow>
          (case scan_s 2047 r of
             None \<Rightarrow> None
           | Some (fname_write, r1) \<Rightarrow>
               (case scan_d r1 of
                  None \<Rightarrow> None
                | Some (sentence_num, r2) \<Rightarrow> Some (fname_write, sentence_num))))"

text \<open>\<open>sscanf(buf, "CHECKPOINT %255s %255s", fname, checkpoint_tag) == 2\<close>.\<close>

definition scan_checkpoint :: "string \<Rightarrow> (string \<times> string) option" where
  "scan_checkpoint buf =
     (case scan_lit ''CHECKPOINT'' buf of
        None \<Rightarrow> None
      | Some r \<Rightarrow>
          (case scan_s 255 r of
             None \<Rightarrow> None
           | Some (fname, r1) \<Rightarrow>
               (case scan_s 255 r1 of
                  None \<Rightarrow> None
                | Some (tag, r2) \<Rightarrow> Some (fname, tag))))"

section \<open>Storage server: words and sentences\<close>

record sentence_info =
  start_word_idx :: nat
  end_word_idx :: nat
  delimiter :: char

definition is_delimiter :: "char \<Rightarrow> bool" where
  "is_delimiter c = (c = CHR ''.'' \<or> c = CHR ''!'' \<or> c = CHR ''?'')"

text \<open>
  Tokenising a text: \<open>strtok(temp, " \t\n")\<close> until it returns NULL or 1024 words are
  stored. The source copies each word with \<open>strcpy\<close> into a slot of 512 bytes and builds
  the texts it writes with \<open>strcat\<close> in buffers of 8192 bytes, without a test; the model
  covers the runs in which words and texts fit, where C defines the behaviour.
\<close>

definition tokenize :: "string \<Rightarrow> string list" where
  "tokenize content = take_bytes 1024 (strtok_all [CHR '' '', CHR 0x09, CHR 0x0A] content)"

text \<open>
  The sentence loop, the same in \<open>get_sentence_info_simple\<close>, in the insert branch and
  (twice) in the commit branch: a word whose last byte is a delimiter closes the current
  sentence while fewer than 256 sentences are recorded. \<open>i\<close> is the index of the word
  looked at, \<open>sent_start\<close> the start of the current sentence.
\<close>

fun scan_sentences ::
  "string list \<Rightarrow> nat \<Rightarrow> nat \<Rightarrow> sentence_info list \<Rightarrow> sentence_info list \<times> nat" where
  "scan_sentences [] i sent_start acc = (acc, sent_start)"
| "scan_sentences (w # ws) i sent_start acc =
     (if w \<noteq> [] \<and> is_delimiter (last w) \<and> int (length acc) < 256
      then scan_sentences ws (Suc i) (Suc i)
             (acc @ [\<lparr>start_word_idx = sent_start, end_word_idx = i, delimiter = last w\<rparr>])
      else scan_sentences ws (Suc i) sent_start acc)"

text \<open>After the loop a trailing run of words without delimiter is one more sentence.\<close>

definition parse_sentences :: "string list \<Rightarrow> sentence_info list" where
  "parse_sentences words =
     (let (acc, sent_start) = scan_sentences words 0 0 []
      in if sent_start < length words \<and> int (length acc) < 256
         then acc @ [\<lparr>start_word_idx = sent_start, end_word_idx = length words - 1,
                      delimiter = NUL\<rparr>]
         else acc)"

text \<open>The words \<open>words[start_word_idx .. end_word_idx]\<close> of a sentence.\<close>

definition sentence_words :: "string list \<Rightarrow> sentence_info \<Rightarrow> string list" where
  "sentence_words words si =
     take (Suc (end_word_idx si) - start_word_idx si) (drop (start_word_idx si) words)"

text \<open>The words and the sentences the bytes of a file are read as.\<close>

definition file_words :: "string \<Rightarrow> string list" where
  "file_words file_bytes = tokenize (c_str (fread_8k file_bytes))"

definition file_sentences :: "string \<Rightarrow> sentence_info list" where
  "file_sentences file_bytes = parse_sentences (file_words file_bytes)"

subsection \<open>Words and sentences of a text, without the arrays\<close>

text \<open>
  The reading of a text that the parsing loops implement as long as nothing reaches the
  end of an array: the words are the runs of bytes between blanks, tabs and newlines; a
  sentence ends with a word whose last byte is a delimiter, and words left over after the
  last delimiter form a sentence of their own. \<open>cur\<close> holds the words of the sentence
  being read.
\<close>

definition text_words :: "string \<Rightarrow> string list" where
  "text_words text = strtok_all [CHR '' '', CHR 0x09, CHR 0x0A] text"

fun split_sentences :: "string list \<Rightarrow> string list \<Rightarrow> string list list" where
  "split_sentences cur [] = (if cur = [] then [] else [cur])"
| "split_sentences cur (w # ws) =
     (if w \<noteq> [] \<and> is_delimiter (last w)
      then (cur @ [w]) # split_sentences [] ws
      else split_sentences (cur @ [w]) ws)"

definition text_sentences :: "string \<Rightarrow> string list list" where
  "text_sentences text = split_sentences [] (text_words text)"

text \<open>The first and the last word index of consecutive sentences.\<close>

fun sentence_ranges :: "nat \<Rightarrow> string list list \<Rightarrow> (nat \<times> nat) list" where
  "sentence_ranges start [] = []"
| "sentence_ranges start (s # ss) =
     (start, start + length s - 1) # sentence_ranges (start + length s) ss"

text \<open>
  The sizes the engine is built for: a file is read into 8192 bytes and used as a C
  string, its words go into 1024 slots of 512 bytes, its sentences into 256 records. A
  text beyond them is cut short by the loops (bytes, words, sentences) or overruns a slot
  (a word of 512 bytes or more).
\<close>

definition within_limits :: "string \<Rightarrow> bool" where
  "within_limits text =
     (int (length text) \<le> 8191 \<and> NUL \<notin> set text \<and>
      int (length (text_words text)) \<le> 1024 \<and>
      (\<forall>w\<in>set (text_words text). int (length w) \<le> 511) \<and>
      int (length (text_sentences text)) \<le> 256)"

text \<open>
  The merge as the specification words it: the sentences of the live text before the
  target, the target sentence of the swap, the sentences of the live text after the
  target, all words joined by single spaces.
\<close>

definition merged_text :: "string \<Rightarrow> string \<Rightarrow> int \<Rightarrow> string" where
  "merged_text live swap t =
     join_words (concat (take (nat (t - 1)) (text_sentences live)) @
                 text_sentences swap ! nat (t - 1) @
                 concat (drop (nat t) (text_sentences live)))"

section \<open>Storage server: files, locks and the write engine (main.c)\<close>

text \<open>
  The directories of one storage server: each maps a file name inside the directory to
  the bytes of the file. Names are plain (no \<open>/\<close>) and short enough for the path buffers.
  Opening an existing directory entry for writing is taken to succeed. The metadata
  table (\<open>update_metadata_entry\<close>) is not part of the model.
\<close>

record sentence_lock =
  sl_filename :: string
  sl_sentence_num :: int
  sl_client_fd :: int

record ss_state =
  files :: "string \<rightharpoonup> string"
  versions :: "string \<rightharpoonup> string"
  undo_dir :: "string \<rightharpoonup> string"
  checkpoints :: "string \<rightharpoonup> string"
  checkpoint_meta :: "string \<rightharpoonup> string"
  sentence_locks :: "sentence_lock list"

subsection \<open>The sentence lock table\<close>

definition is_sentence_locked :: "sentence_lock list \<Rightarrow> string \<Rightarrow> int \<Rightarrow> int \<Rightarrow> bool" where
  "is_sentence_locked locks filename sentence_num client_fd =
     (\<exists>l\<in>set locks. sl_filename l = filename \<and> sl_sentence_num l = sentence_num \<and>
                     sl_client_fd l \<noteq> client_fd)"

definition add_sentence_lock :: "sentence_lock list \<Rightarrow> string \<Rightarrow> int \<Rightarrow> int \<Rightarrow> sentence_lock list" where
  "add_sentence_lock locks filename sentence_num client_fd =
     \<lparr>sl_filename = filename, sl_sentence_num = sentence_num, sl_client_fd = client_fd\<rparr> # locks"

text \<open>\<open>remove_sentence_lock\<close> unlinks the first matching node only.\<close>

fun remove_sentence_lock :: "sentence_lock list \<Rightarrow> string \<Rightarrow> int \<Rightarrow> int \<Rightarrow> sentence_lock list" where
  "remove_sentence_lock [] filename sentence_num client_fd = []"
| "remove_sentence_lock (l # ls) filename sentence_num client_fd =
     (if sl_filename l = filename \<and> sl_sentence_num l = sentence_num \<and> sl_client_fd l = client_fd
      then ls
      else l # remove_sentence_lock ls filename sentence_num client_fd)"


text \<open>\<open>get_client_write_info\<close>: file and sentence of the first lock of the connection.\<close>

fun get_client_write_info :: "sentence_lock list \<Rightarrow> int \<Rightarrow> (string \<times> int) option" where
  "get_client_write_info [] client_fd = None"
| "get_client_write_info (l # ls) client_fd =
     (if sl_client_fd l = client_fd then Some (sl_filename l, sl_sentence_num l)
      else get_client_write_info ls client_fd)"

text \<open>The test made by UNDO, CHECKPOINT and REVERT: some lock names the file.\<close>

definition file_locked :: "sentence_lock list \<Rightarrow> string \<Rightarrow> bool" where
  "file_locked locks fname = (\<exists>l\<in>set locks. sl_filename l = fname)"

subsection \<open>Backups and undo\<close>

text \<open>
  \<open>create_file_backup\<close>: the live file is copied to \<open>versions/<file>_<now>.bak\<close> and a
  line \<open><now>|<backup>|<user>\<close> is appended to \<open>undo/<file>.undo\<close>. \<open>now\<close> is
  \<open>time(NULL)\<close>, in seconds.
\<close>

definition create_file_backup :: "ss_state \<Rightarrow> string \<Rightarrow> string \<Rightarrow> int \<Rightarrow> int \<times> ss_state" where
  "create_file_backup s filename username now =
     (case files s filename of
        None \<Rightarrow> (0, s)
      | Some file_bytes \<Rightarrow>
          (let content = c_str (fread_8k file_bytes);
               backup_filename = filename @ ''_'' @ dec now @ ''.bak'';
               undo_meta_name = filename @ ''.undo'';
               old = (case undo_dir s undo_meta_name of None \<Rightarrow> [] | Some t \<Rightarrow> t)
           in (1, s\<lparr>versions := (versions s)(backup_filename \<mapsto> content),
                     undo_dir := (undo_dir s)(undo_meta_name \<mapsto>
                        old @ dec now @ ''|'' @ backup_filename @ ''|'' @ username @ [CHR 0x0A])\<rparr>)))"

record backup_entry =
  be_timestamp :: int
  be_backup_name :: string
  be_user :: string
  be_used :: int

text \<open>
  The lines \<open>fgets(line, n, f)\<close> returns one after the other: each ends after a newline
  or after \<open>n - 1\<close> bytes. \<open>cur\<close> is the line being read.
\<close>

fun fgets_from :: "int \<Rightarrow> string \<Rightarrow> string \<Rightarrow> string list" where
  "fgets_from n cur [] = (if cur = [] then [] else [cur])"
| "fgets_from n cur (c # cs) =
     (if c = CHR 0x0A \<or> int (length cur) + 1 \<ge> n - 1
      then (cur @ [c]) # fgets_from n [] cs
      else fgets_from n (cur @ [c]) cs)"

text \<open>
  \<open>sscanf(line, "%ld|%255[^|]|%127[^|]|%d", &timestamp, backup_name, user, &used) >= 3\<close>,
  with \<open>used\<close> initialised to 0.
\<close>

definition parse_undo_line :: "string \<Rightarrow> backup_entry option" where
  "parse_undo_line line =
     (case scan_ld line of
        None \<Rightarrow> None
      | Some (timestamp, r1) \<Rightarrow>
     (case scan_lit ''|'' r1 of
        None \<Rightarrow> None
      | Some r2 \<Rightarrow>
     (case scan_not (CHR ''|'') 255 r2 of
        None \<Rightarrow> None
      | Some (backup_name, r3) \<Rightarrow>
     (case scan_lit ''|'' r3 of
        None \<Rightarrow> None
      | Some r4 \<Rightarrow>
     (case scan_not (CHR ''|'') 127 r4 of
        None \<Rightarrow> None
      | Some (user, r5) \<Rightarrow>
          Some \<lparr>be_timestamp = timestamp, be_backup_name = backup_name, be_user = user,
                be_used = (case scan_lit ''|'' r5 of
                             None \<Rightarrow> 0
                           | Some r6 \<Rightarrow> (case scan_d r6 of None \<Rightarrow> 0 | Some (used, r7) \<Rightarrow> used))\<rparr>)))))"

text \<open>The entries read from the log: the lines that parse, at most 1000 of them.\<close>

definition read_backups :: "string \<Rightarrow> backup_entry list" where
  "read_backups log_text = take_bytes 1000 (List.map_filter parse_undo_line (fgets_from 1024 [] log_text))"

text \<open>
  The sort: for every \<open>i\<close> and every \<open>j > i\<close>, entries \<open>i\<close> and \<open>j\<close> are exchanged when the
  timestamp at \<open>i\<close> is smaller.
\<close>

definition sort_backups :: "backup_entry list \<Rightarrow> backup_entry list" where
  "sort_backups backups =
     fold (\<lambda>i bs.
            fold (\<lambda>j bs. if be_timestamp (bs ! i) < be_timestamp (bs ! j)
                          then bs[i := bs ! j, j := bs ! i] else bs)
                 [Suc i..<length bs] bs)
          [0..<length backups - 1] backups"

fun find_unused :: "backup_entry list \<Rightarrow> nat option" where
  "find_unused [] = None"
| "find_unused (b # bs) = (if be_used b = 0 then Some 0 else map_option Suc (find_unused bs))"

definition print_backup :: "backup_entry \<Rightarrow> string" where
  "print_backup b =
     dec (be_timestamp b) @ ''|'' @ be_backup_name b @ ''|'' @ be_user b @ ''|'' @
     dec (be_used b) @ [CHR 0x0A]"

text \<open>
  \<open>perform_undo\<close>: 0 when there is no log, no entry or no unused entry; \<open>-1\<close> when the
  backup file is missing; otherwise the newest unused backup is written to the live
  file, the entry is marked used, the log is rewritten and the result is 1.
\<close>

definition perform_undo :: "ss_state \<Rightarrow> string \<Rightarrow> int \<times> ss_state" where
  "perform_undo s filename =
     (case undo_dir s (filename @ ''.undo'') of
        None \<Rightarrow> (0, s)
      | Some log_text \<Rightarrow>
          (let backups0 = read_backups log_text
           in if backups0 = [] then (0, s)
              else (let backups = sort_backups backups0
                    in case find_unused backups of
                         None \<Rightarrow> (0, s)
                       | Some target_backup_idx \<Rightarrow>
                           (case versions s (be_backup_name (backups ! target_backup_idx)) of
                              None \<Rightarrow> (- 1, s)
                            | Some backup_bytes \<Rightarrow>
                                (1, s\<lparr>files := (files s)(filename \<mapsto> c_str (fread_8k backup_bytes)),
                                      undo_dir := (undo_dir s)(filename @ ''.undo'' \<mapsto>
                                        concat (map print_backup
                                          (backups[target_backup_idx :=
                                             (backups ! target_backup_idx)\<lparr>be_used := 1\<rparr>])))\<rparr>)))))"

text \<open>The UNDO command of a direct client connection.\<close>

definition handle_undo :: "ss_state \<Rightarrow> string \<Rightarrow> string list \<times> ss_state" where
  "handle_undo s fname =
     (if file_locked (sentence_locks s) fname
      then ([''ERR_409 Cannot undo: file is currently being edited''], s)
      else if files s fname = None then ([''ERR_404 File not found''], s)
      else (let (undo_result, s') = perform_undo s fname
            in if undo_result = 1 then ([''OK_200 UNDO COMPLETED''], s')
               else if undo_result = 0
                 then ([''ERR_404 No undo history available for this file''], s')
                 else ([''ERR_500 UNDO operation failed''], s')))"

text \<open>
  \<open>case MSG_UNDO\<close> of \<open>handle_ns_commands\<close>: the undo the name server forwards. The
  boolean tells whether an ACK is sent back.
\<close>

definition handle_ns_undo :: "ss_state \<Rightarrow> string \<Rightarrow> bool \<times> ss_state" where
  "handle_ns_undo s filename =
     (let (result, s') = perform_undo s filename in (result = 1, s'))"

subsection \<open>Checkpoints\<close>

text \<open>
  \<open>create_checkpoint\<close>: 0 file missing, \<open>-2\<close> the checkpoint file exists, 1 created.
\<close>

definition create_checkpoint :: "ss_state \<Rightarrow> string \<Rightarrow> string \<Rightarrow> string \<Rightarrow> int \<Rightarrow> int \<times> ss_state" where
  "create_checkpoint s filename checkpoint_tag username now =
     (case files s filename of
        None \<Rightarrow> (0, s)
      | Some file_bytes \<Rightarrow>
          (let content = c_str (fread_8k file_bytes);
               bytes_read = int (length (fread_8k file_bytes));
               checkpoint_filename = filename @ ''_'' @ checkpoint_tag @ ''.checkpoint'';
               meta_name = filename @ ''.meta'';
               old = (case checkpoint_meta s meta_name of None \<Rightarrow> [] | Some t \<Rightarrow> t)
           in if checkpoints s checkpoint_filename \<noteq> None then (- 2, s)
              else (1, s\<lparr>checkpoints := (checkpoints s)(checkpoint_filename \<mapsto> content),
                          checkpoint_meta := (checkpoint_meta s)(meta_name \<mapsto>
                             old @ dec now @ ''|'' @ checkpoint_tag @ ''|'' @ username @ ''|'' @
                             dec bytes_read @ [CHR 0x0A])\<rparr>)))"

text \<open>The CHECKPOINT command of a direct client connection.\<close>

definition handle_checkpoint :: "ss_state \<Rightarrow> string \<Rightarrow> int \<Rightarrow> string \<Rightarrow> string list \<times> ss_state" where
  "handle_checkpoint s username now buf =
     (case scan_checkpoint buf of
        None \<Rightarrow> ([''ERR_400 Invalid format. Use: CHECKPOINT <filename> <tag>''], s)
      | Some (fname, checkpoint_tag) \<Rightarrow>
          if file_locked (sentence_locks s) fname
          then ([''ERR_409 Cannot create checkpoint: file is currently being edited''], s)
          else if files s fname = None then ([''ERR_404 File not found''], s)
          else (let (result, s') = create_checkpoint s fname checkpoint_tag username now
                in if result = 1 then ([''OK_200 CHECKPOINT CREATED''], s')
                   else if result = - 2 then ([''ERR_409 Checkpoint tag already exists''], s')
                   else ([''ERR_500 Failed to create checkpoint''], s')))"

subsection \<open>Entering WRITE mode\<close>

text \<open>The number of sentences a WRITE may name, computed from the bytes of the file.\<close>

definition available_sentences :: "string \<Rightarrow> int" where
  "available_sentences file_bytes =
     (let bytes = fread_8k file_bytes; content = c_str bytes
      in if bytes = [] then 1
         else (let words = tokenize content;
                   cached_sentences = parse_sentences words;
                   total_sentences = int (length cached_sentences)
               in if total_sentences = 0 then 2
                  else (let last_sentence_end = int (end_word_idx (last cached_sentences));
                            total_content_words = int (length words)
                        in if last_sentence_end < total_content_words - 1
                           then total_sentences + 1
                           else if total_content_words > 0
                             then (let last_word = words ! nat last_sentence_end
                                   in if last_word \<noteq> [] \<and> is_delimiter (last last_word)
                                      then total_sentences + 1 else total_sentences)
                             else total_sentences)))"

text \<open>
  The WRITE branch. A line that does not scan as \<open>WRITE <file> <n>\<close> gets no reply.
\<close>

definition handle_write :: "ss_state \<Rightarrow> int \<Rightarrow> string \<Rightarrow> string list \<times> ss_state" where
  "handle_write s fd buf =
     (case scan_write buf of
        None \<Rightarrow> ([], s)
      | Some (fname_write, sentence_num) \<Rightarrow>
          (case files s fname_write of
             None \<Rightarrow> ([''ERR_404 File not found''], s)
           | Some file_bytes \<Rightarrow>
               (let available = available_sentences file_bytes
                in if sentence_num < 1 then ([''ERR_404 Sentence number must be positive''], s)
                   else if sentence_num > available
                     then ([if available = 1
                            then ''ERR_404 Sentence '' @ dec sentence_num @
                                 '' not available. File allows sentence 1 only.''
                            else ''ERR_404 Sentence '' @ dec sentence_num @
                                 '' not available. File allows sentences 1-'' @ dec available @ ''.''], s)
                   else if is_sentence_locked (sentence_locks s) fname_write sentence_num fd
                     then ([''ERR_409 This sentence is currently being edited by another user''], s)
                     else ([''OK_200 WRITE MODE ENABLED''],
                           s\<lparr>sentence_locks :=
                                add_sentence_lock (sentence_locks s) fname_write sentence_num fd\<rparr>))))"

subsection \<open>Inserting words\<close>

text \<open>The swap file of a writer lives beside the live files.\<close>

definition swap_name :: "string \<Rightarrow> int \<Rightarrow> int \<Rightarrow> string" where
  "swap_name current_file current_sentence fd =
     current_file @ ''_'' @ dec current_sentence @ ''_'' @ dec fd @ ''.swap''"

text \<open>
  The words of the target sentence with the delimiter taken off the last word; a last
  word that was the delimiter alone is dropped.
\<close>

definition peel_delimiter :: "string list \<Rightarrow> string list \<times> char" where
  "peel_delimiter sw =
     (if sw = [] then ([], NUL)
      else (let lw = last sw
            in if lw \<noteq> [] \<and> is_delimiter (last lw)
               then (if butlast lw \<noteq> [] then butlast sw @ [butlast lw] else butlast sw, last lw)
               else (sw, NUL)))"

text \<open>
  The insertion loop over the peeled words: the new tokens go in front of the word whose
  1-based position is \<open>word_idx\<close>.
\<close>

fun insert_words :: "string list \<Rightarrow> int \<Rightarrow> int \<Rightarrow> string list \<Rightarrow> string list" where
  "insert_words [] position_in_sentence word_idx toks = []"
| "insert_words (w # ws) position_in_sentence word_idx toks =
     (if position_in_sentence = word_idx
      then toks @ w # insert_words ws (position_in_sentence + 1) word_idx toks
      else w # insert_words ws (position_in_sentence + 1) word_idx toks)"

text \<open>The delimiter goes back onto the last word copied so far, if it has room.\<close>

definition attach_delimiter :: "char \<Rightarrow> string list \<Rightarrow> string list" where
  "attach_delimiter sentence_delimiter new_all_words =
     (if sentence_delimiter \<noteq> NUL \<and> new_all_words \<noteq> [] \<and>
         int (length (last new_all_words)) < 511
      then butlast new_all_words @ [last new_all_words @ [sentence_delimiter]]
      else new_all_words)"

definition out_of_range :: "int \<Rightarrow> int \<Rightarrow> int \<Rightarrow> string" where
  "out_of_range word_idx current_sentence n =
     ''ERR_404 Word index '' @ dec word_idx @ '' out of range. Sentence '' @
     dec current_sentence @ '' has '' @ dec n @ '' words (positions 1-'' @ dec (n + 1) @
     '' available)''"

text \<open>
  A line received in WRITE mode that is not the commit: \<open><word_index> <content>\<close>. The
  connection holds the lock on \<open>current_sentence\<close> (at least 1) of \<open>current_file\<close>.
  The source fills \<open>all_words[1024][512]\<close>, \<open>sentence_words[256][512]\<close>,
  \<open>new_all_words[1024][512]\<close> and \<open>final_content[8192]\<close> with \<open>strcpy\<close> and \<open>strcat\<close>: the
  function below is the behaviour of the source when every word of the text and of the
  new content has at most 511 bytes, the target sentence at most 256 words, the new
  text at most 1024 words and at most 8191 bytes. Outside these sizes the source has no
  defined behaviour, and the theorems about inserts assume them.
\<close>

definition handle_insert :: "ss_state \<Rightarrow> int \<Rightarrow> string \<Rightarrow> int \<Rightarrow> string \<Rightarrow> string list \<times> ss_state" where
  "handle_insert s fd current_file current_sentence buf =
     (case scan_insert buf of
        None \<Rightarrow> ([''ERR_400 Invalid format. Use: <word_index> <content>''], s)
      | Some (word_idx, new_content) \<Rightarrow>
          if word_idx < 1 then ([''ERR_400 Word index must be positive (1-based)''], s)
          else
          (let swap_path = swap_name current_file current_sentence fd
           in case (case files s swap_path of
                      Some b \<Rightarrow> Some b
                    | None \<Rightarrow> files s current_file) of
                None \<Rightarrow> ([''ERR_404 File not found during update''], s)
              | Some file_bytes \<Rightarrow>
          (let bytes = fread_8k file_bytes; content = c_str bytes
           in if bytes = [] \<and> current_sentence = 1
              then (if word_idx = 1
                    then ([''OK_200 CONTENT INSERTED''],
                          s\<lparr>files := (files s)(swap_path \<mapsto> new_content)\<rparr>)
                    else ([''ERR_404 Empty file: only word index 1 allowed''], s))
              else
          (let all_words = tokenize content;
               parsed = parse_sentences all_words;
               sentence_info =
                 (if parsed = [] \<and> all_words \<noteq> []
                  then [\<lparr>start_word_idx = 0, end_word_idx = length all_words - 1,
                         delimiter = NUL\<rparr>]
                  else parsed)
           in if current_sentence > int (length sentence_info)
              then (if word_idx = 1
                    then ([''OK_200 CONTENT INSERTED''],
                          s\<lparr>files := (files s)(swap_path \<mapsto>
                               (if bytes \<noteq> []
                                then take_bytes 8191 (content @ '' '' @ new_content)
                                else new_content))\<rparr>)
                    else ([''ERR_404 New sentence: only word index 1 allowed''], s))
              else
          (let si = sentence_info ! nat (current_sentence - 1);
               sent_start = start_word_idx si;
               sent_end = end_word_idx si;
               original_sentence_word_count = int sent_end - int sent_start + 1
           in if word_idx > original_sentence_word_count + 1
              then ([out_of_range word_idx current_sentence original_sentence_word_count], s)
              else
          (let (sentence_words', sentence_delimiter) = peel_delimiter (sentence_words all_words si);
               adjusted_sentence_word_count = int (length sentence_words')
           in if word_idx > adjusted_sentence_word_count + 1
              then ([out_of_range word_idx current_sentence adjusted_sentence_word_count], s)
              else
          (let toks = strtok_all [CHR '' '', CHR 0x09] new_content;
               new_sentence =
                 insert_words sentence_words' 1 word_idx toks @
                 (if word_idx > adjusted_sentence_word_count then toks else []);
               new_all_words =
                 attach_delimiter sentence_delimiter (take sent_start all_words @ new_sentence) @
                 drop (Suc sent_end) all_words
           in ([''OK_200 CONTENT INSERTED''],
               s\<lparr>files := (files s)(swap_path \<mapsto> join_words new_all_words)\<rparr>))))))))"

subsection \<open>Committing (ETIRW)\<close>

text \<open>One sentence appended to \<open>final_content\<close>, after a space unless the buffer is empty.\<close>

definition strcat_sentence :: "string \<Rightarrow> string list \<Rightarrow> string" where
  "strcat_sentence final_content ws =
     (if final_content \<noteq> [] then final_content @ '' '' else final_content) @ join_words ws"

text \<open>
  The merge of step 5: the whole swap when the live file has no sentence; the last
  sentence of the swap appended when the target lies beyond the live sentences;
  otherwise the live sentences before the target, the target sentence of the swap if the
  swap has one at that index, and the live sentences after the target.
\<close>

definition merge_content ::
  "string \<Rightarrow> string list \<Rightarrow> sentence_info list \<Rightarrow> string \<Rightarrow> string list \<Rightarrow> sentence_info list \<Rightarrow>
   int \<Rightarrow> string" where
  "merge_content current_orig_content current_words current_sentences
                 swap_content swap_words swap_sentences current_sentence =
     (if current_sentences = [] then swap_content
      else if current_sentence > int (length current_sentences)
        then (let final0 = (if current_orig_content \<noteq> [] then current_orig_content @ '' ''
                            else current_orig_content)
              in if swap_sentences \<noteq> []
                 then final0 @ join_words (sentence_words swap_words (last swap_sentences))
                 else final0)
        else (let final1 = fold (\<lambda>si final. strcat_sentence final (sentence_words current_words si))
                             (take (nat (current_sentence - 1)) current_sentences) [];
                  final2 = (if current_sentence - 1 < int (length swap_sentences)
                            then strcat_sentence final1
                                   (sentence_words swap_words
                                      (swap_sentences ! nat (current_sentence - 1)))
                            else final1)
              in fold (\<lambda>si final. strcat_sentence final (sentence_words current_words si))
                      (drop (nat current_sentence) current_sentences) final2))"

text \<open>
  The ETIRW branch: without a swap file only the lock is released; with one, a backup of
  the live file is taken, live file and swap are read and parsed again, the merge is
  written to the live file and the swap is removed. The source copies the words into
  \<open>current_words[1024][512]\<close> and \<open>swap_words[1024][512]\<close> with \<open>strcpy\<close> and builds
  \<open>final_content[8192]\<close> with \<open>strcat\<close>: the function below is the behaviour of the source
  when every word of both texts has at most 511 bytes and the merge at most 8191 bytes.
  Outside these sizes the source has no defined behaviour, and the theorems about the
  merge assume them.
\<close>

definition handle_commit :: "ss_state \<Rightarrow> int \<Rightarrow> string \<Rightarrow> int \<Rightarrow> string \<Rightarrow> int \<Rightarrow> string list \<times> ss_state" where
  "handle_commit s fd username now current_file current_sentence =
     (let swap_path = swap_name current_file current_sentence fd;
          release = (\<lambda>t. t\<lparr>sentence_locks :=
                       remove_sentence_lock (sentence_locks t) current_file current_sentence fd\<rparr>)
      in case files s swap_path of
           None \<Rightarrow> ([''OK_200 WRITE COMPLETED''], release s)
         | Some swap_file_bytes \<Rightarrow>
             (let s1 = snd (create_file_backup s current_file username now);
                  current_orig_bytes = (case files s1 current_file of
                                          None \<Rightarrow> []
                                        | Some b \<Rightarrow> fread_8k b);
                  current_orig_content = c_str current_orig_bytes;
                  swap_bytes = fread_8k swap_file_bytes;
                  swap_content = c_str swap_bytes;
                  current_words = (if current_orig_bytes \<noteq> [] then tokenize current_orig_content
                                   else []);
                  current_sentences = (if current_orig_bytes \<noteq> []
                                       then parse_sentences current_words else []);
                  swap_words = (if swap_bytes \<noteq> [] then tokenize swap_content else []);
                  swap_sentences = (if swap_bytes \<noteq> [] then parse_sentences swap_words else []);
                  final_content = merge_content current_orig_content current_words
                                    current_sentences swap_content swap_words swap_sentences
                                    current_sentence
              in ([''OK_200 WRITE COMPLETED''],
                  release (s1\<lparr>files := ((files s1)(current_file \<mapsto> final_content))
                                          (swap_path := None)\<rparr>))))"

subsection \<open>One line of a direct client connection\<close>

text \<open>
  The body of the loop of \<open>client_handler_thread\<close> for the bytes of one \<open>recv\<close>: the
  replies sent (written without their final newline) and the new state. A connection that holds a lock is in WRITE mode: the
  line is the commit or an insert. Otherwise the line is dispatched on its first word;
  the commands modelled are WRITE, UNDO and CHECKPOINT, and \<open>None\<close> stands for any other
  command (CREATE, READ, STREAM, VIEWCHECKPOINT, REVERT, LISTCHECKPOINTS, DELETE, EXIT,
  the access requests, unknown words), none of which touches the lock table. On a line
  without any word \<open>cmd\<close> is not assigned; such a line cannot pass the scan of the WRITE
  branch and is counted among the other commands.
\<close>

definition client_handler_line ::
  "ss_state \<Rightarrow> int \<Rightarrow> string \<Rightarrow> int \<Rightarrow> string \<Rightarrow> (string list \<times> ss_state) option" where
  "client_handler_line s fd username now bytes =
     (let buf = recv_line bytes
      in case get_client_write_info (sentence_locks s) fd of
           Some (current_file, current_sentence) \<Rightarrow>
             if take 5 buf = ''ETIRW''
             then Some (handle_commit s fd username now current_file current_sentence)
             else Some (handle_insert s fd current_file current_sentence buf)
         | None \<Rightarrow>
             (let m = scan_command buf
              in if m = [] then None
                 else if length m \<ge> 2 \<and> hd m \<in> set [''CREATE'', ''READ'', ''STREAM''] then None
                 else if take 5 (hd m) = ''WRITE'' then Some (handle_write s fd buf)
                 else if length m \<ge> 2 \<and> hd m = ''UNDO'' then Some (handle_undo s (m ! 1))
                 else if length m \<ge> 3 \<and> hd m = ''CHECKPOINT''
                   then Some (handle_checkpoint s username now buf)
                 else None))"



definition ss_init :: ss_state where
  "ss_init = \<lparr>files = Map.empty, versions = Map.empty, undo_dir = Map.empty,
              checkpoints = Map.empty, checkpoint_meta = Map.empty, sentence_locks = []\<rparr>"

text \<open>The replies of a sequence of lines, for the scenarios.\<close>

fun ss_run :: "ss_state \<Rightarrow> (int \<times> string \<times> int \<times> string) list \<Rightarrow> string list \<times> ss_state" where
  "ss_run s [] = ([], s)"
| "ss_run s ((fd, username, now, bytes) # rest) =
     (case client_handler_line s fd username now bytes of
        None \<Rightarrow> ss_run s rest
      | Some (replies, s') \<Rightarrow> (let (more, t) = ss_run s' rest in (replies @ more, t)))"


subsection \<open>Concrete storage-server states used in the scenarios\<close>

definition ss_with :: "(string \<times> string) list \<Rightarrow> ss_state" where
  "ss_with fs = ss_init\<lparr>files := map_of fs\<rparr>"

definition LF :: string where
  "LF = [CHR 0x0A]"

text \<open>Scenario S3 of the specification: file \<open>a\<close> holds \<open>one. two.\<close>; alice is connection 4.\<close>

definition ss_a :: ss_state where
  "ss_a = ss_with [(''a'', ''one. two.'')]"

definition write_big :: "(int \<times> string \<times> int \<times> string) list" where
  "write_big = [(4, ''alice'', 1000, ''WRITE a 1'' @ LF), (4, ''alice'', 1000, ''2 big'' @ LF),
                (4, ''alice'', 1000, ''ETIRW'' @ LF)]"

definition write_very :: "(int \<times> string \<times> int \<times> string) list" where
  "write_very = [(4, ''alice'', 1001, ''WRITE a 1'' @ LF), (4, ''alice'', 1001, ''2 very'' @ LF),
                 (4, ''alice'', 1001, ''ETIRW'' @ LF)]"

definition undo_a :: "int \<Rightarrow> (int \<times> string \<times> int \<times> string) list" where
  "undo_a now = [(4, ''alice'', now, ''UNDO a'' @ LF)]"

text \<open>After alice's commit, bob (connection 5) has entered WRITE mode on sentence 1.\<close>

definition ss_a_locked :: ss_state where
  "ss_a_locked = snd (ss_run ss_a (write_big @ [(5, ''bob'', 1001, ''WRITE a 1'' @ LF)]))"

text \<open>Two files, \<open>a\<close> and \<open>a_b\<close>.\<close>

definition ss_two :: ss_state where
  "ss_two = ss_with [(''a'', ''x''), (''a_b'', ''y'')]"

text \<open>Scenario S2: \<open>doc\<close> holds two sentences; A is connection 4, B is connection 5.\<close>

definition ss_doc :: ss_state where
  "ss_doc = ss_with [(''doc'', ''Hello world. Goodbye world.'')]"

definition s2_edits :: "(int \<times> string \<times> int \<times> string) list" where
  "s2_edits = [(4, ''A'', 1000, ''WRITE doc 1'' @ LF), (5, ''B'', 1000, ''WRITE doc 2'' @ LF),
               (4, ''A'', 1000, ''3 cruel'' @ LF), (5, ''B'', 1000, ''1 Farewell'' @ LF)]"

definition commit_A :: "int \<Rightarrow> (int \<times> string \<times> int \<times> string) list" where
  "commit_A now = [(4, ''A'', now, ''ETIRW'' @ LF)]"

definition commit_B :: "int \<Rightarrow> (int \<times> string \<times> int \<times> string) list" where
  "commit_B now = [(5, ''B'', now, ''ETIRW'' @ LF)]"

text \<open>
  A file of one blank and a newline. X (connection 4) opens sentence 2 and Y (connection
  5) sentence 1; both insert; Y commits two sentences, then X commits.
\<close>

definition ss_blank :: ss_state where
  "ss_blank = ss_with [(''w'', '' '' @ LF)]"

definition blank_edits :: "(int \<times> string \<times> int \<times> string) list" where
  "blank_edits = [(4, ''X'', 1000, ''WRITE w 2'' @ LF), (5, ''Y'', 1000, ''WRITE w 1'' @ LF),
                  (4, ''X'', 1000, ''1 X.'' @ LF), (5, ''Y'', 1000, ''1 A. B.'' @ LF),
                  (5, ''Y'', 1001, ''ETIRW'' @ LF)]"

definition commit_X :: "int \<Rightarrow> (int \<times> string \<times> int \<times> string) list" where
  "commit_X now = [(4, ''X'', now, ''ETIRW'' @ LF)]"


section \<open>Facts about the string functions\<close>

lemma take_bytes_take: "take_bytes n xs = take (nat n) xs"
proof (induction xs arbitrary: n)
  case Nil
  then show ?case by simp
next
  case (Cons x xs)
  show ?case
  proof (cases "n \<le> 0")
    case True
    then show ?thesis by simp
  next
    case False
    then have "nat n = Suc (nat (n - 1))" by simp
    then show ?thesis using False Cons.IH[of "n - 1"] by simp
  qed
qed

lemma take_bytes_all: "int (length xs) \<le> n \<Longrightarrow> take_bytes n xs = xs"
  by (simp add: take_bytes_take)

lemma strncpy_short: "int (length s) \<le> n \<Longrightarrow> strncpy n s = s"
  by (simp add: strncpy_def take_bytes_all)

section \<open>Facts about words and sentences\<close>

lemma strtok_from_nonempty_words:
  "\<forall>w\<in>set (strtok_from seps cur s). w \<noteq> []"
  by (induction s arbitrary: cur) auto


lemma tokenize_nonempty_words: "\<forall>w\<in>set (tokenize c). w \<noteq> []"
proof
  fix w assume "w \<in> set (tokenize c)"
  then have "w \<in> set (strtok_from [CHR '' '', CHR 0x09, CHR 0x0A] [] c)"
    unfolding tokenize_def strtok_all_def take_bytes_take by (rule in_set_takeD)
  then show "w \<noteq> []" using strtok_from_nonempty_words by blast
qed

lemma tokenize_empty: "tokenize [] = []"
  by (simp add: tokenize_def strtok_all_def)

lemma c_str_empty: "c_str [] = []"
  by (simp add: c_str_def)

text \<open>Every recorded sentence is a non-empty range of word indices.\<close>

lemma scan_sentences_range:
  assumes "\<forall>si\<in>set acc. start_word_idx si \<le> end_word_idx si \<and> end_word_idx si < i"
    and "sent_start \<le> i"
  shows "(\<forall>si\<in>set (fst (scan_sentences ws i sent_start acc)).
            start_word_idx si \<le> end_word_idx si \<and> end_word_idx si < i + length ws) \<and>
         snd (scan_sentences ws i sent_start acc) \<le> i + length ws"
  using assms
proof (induction ws arbitrary: i sent_start acc)
  case Nil
  then show ?case by simp
next
  case (Cons w ws)
  show ?case
  proof (cases "w \<noteq> [] \<and> is_delimiter (last w) \<and> int (length acc) < 256")
    case True
    let ?acc = "acc @ [\<lparr>start_word_idx = sent_start, end_word_idx = i, delimiter = last w\<rparr>]"
    have a: "\<forall>si\<in>set ?acc. start_word_idx si \<le> end_word_idx si \<and> end_word_idx si < Suc i"
      using Cons.prems by auto
    from Cons.IH[OF a, of "Suc i"] show ?thesis using True by simp
  next
    case False
    have a: "\<forall>si\<in>set acc. start_word_idx si \<le> end_word_idx si \<and> end_word_idx si < Suc i"
      using Cons.prems(1) by auto
    have b: "sent_start \<le> Suc i" using Cons.prems(2) by simp
    from Cons.IH[OF a b] show ?thesis using False by auto
  qed
qed

lemma parse_sentences_range:
  "\<forall>si\<in>set (parse_sentences ws). start_word_idx si \<le> end_word_idx si \<and> end_word_idx si < length ws"
proof -
  obtain acc st where sc: "scan_sentences ws 0 0 [] = (acc, st)" by (cases "scan_sentences ws 0 0 []")
  have r: "(\<forall>si\<in>set acc. start_word_idx si \<le> end_word_idx si \<and> end_word_idx si < length ws) \<and>
      st \<le> length ws"
    using scan_sentences_range[of "[]" 0 0 ws] sc by simp
  show ?thesis
    unfolding parse_sentences_def sc using r by auto
qed

lemma sentence_words_nonempty:
  assumes "start_word_idx si \<le> end_word_idx si" and "end_word_idx si < length ws"
  shows "sentence_words ws si \<noteq> []" and "set (sentence_words ws si) \<subseteq> set ws"
proof -
  have "length (sentence_words ws si) = Suc (end_word_idx si) - start_word_idx si"
    using assms by (simp add: sentence_words_def)
  then show "sentence_words ws si \<noteq> []" using assms(1) by auto
  show "set (sentence_words ws si) \<subseteq> set ws"
    unfolding sentence_words_def
    by (meson in_set_dropD in_set_takeD subsetI)
qed

lemma join_words_append:
  "xs \<noteq> [] \<Longrightarrow> ys \<noteq> [] \<Longrightarrow> join_words (xs @ ys) = join_words xs @ '' '' @ join_words ys"
proof (induction xs rule: join_words.induct)
  case 1
  then show ?case by simp
next
  case (2 w)
  then show ?case by (cases ys) simp_all
next
  case (3 w v va)
  then show ?case by simp
qed

lemma join_words_nonempty: "xs \<noteq> [] \<Longrightarrow> \<forall>w\<in>set xs. w \<noteq> [] \<Longrightarrow> join_words xs \<noteq> []"
  by (induction xs rule: join_words.induct) auto

lemma strcat_sentence_join:
  assumes "\<forall>w\<in>set pre. w \<noteq> []" and "ws \<noteq> []"
  shows "strcat_sentence (join_words pre) ws = join_words (pre @ ws)"
proof (cases "pre = []")
  case True
  then show ?thesis by (simp add: strcat_sentence_def)
next
  case False
  then have "join_words pre \<noteq> []" using assms(1) join_words_nonempty by blast
  then show ?thesis using False assms(2) by (simp add: strcat_sentence_def join_words_append)
qed

lemma fold_strcat_sentences:
  assumes "\<forall>w\<in>set pre. w \<noteq> []"
    and "\<forall>si\<in>set sis. W si \<noteq> [] \<and> (\<forall>w\<in>set (W si). w \<noteq> [])"
  shows "fold (\<lambda>si final. strcat_sentence final (W si)) sis (join_words pre)
       = join_words (pre @ concat (map W sis))"
  using assms
proof (induction sis arbitrary: pre)
  case Nil
  then show ?case by simp
next
  case (Cons si sis)
  have s: "strcat_sentence (join_words pre) (W si) = join_words (pre @ W si)"
    using strcat_sentence_join Cons.prems by simp
  have p: "\<forall>w\<in>set (pre @ W si). w \<noteq> []" using Cons.prems by auto
  have r: "\<forall>sj\<in>set sis. W sj \<noteq> [] \<and> (\<forall>w\<in>set (W sj). w \<noteq> [])" using Cons.prems(2) by simp
  show ?case using Cons.IH[OF p r] s by simp
qed

section \<open>The parsing loops against the sentences of a text\<close>

lemma concat_split_sentences: "concat (split_sentences cur ws) = cur @ ws"
  by (induction ws arbitrary: cur) auto

lemma split_sentences_nonempty: "\<forall>s\<in>set (split_sentences cur ws). s \<noteq> []"
  by (induction ws arbitrary: cur) auto

lemma length_sentence_ranges: "length (sentence_ranges st S) = length S"
  by (induction S arbitrary: st) auto

lemma sentence_ranges_nth:
  assumes "k < length S" and "\<forall>s\<in>set S. s \<noteq> []"
  shows "sentence_ranges st S ! k =
     (st + length (concat (take k S)), st + length (concat (take (Suc k) S)) - 1)"
  using assms
proof (induction S arbitrary: st k)
  case Nil
  then show ?case by simp
next
  case (Cons s S)
  show ?case
  proof (cases k)
    case 0
    then show ?thesis by simp
  next
    case (Suc j)
    have j: "j < length S" using Cons.prems(1) Suc by simp
    have ne: "\<forall>s\<in>set S. s \<noteq> []" using Cons.prems(2) by simp
    show ?thesis using Cons.IH[OF j ne, of "st + length s"] Suc by (simp add: add.assoc)
  qed
qed

text \<open>
  While the 256 records suffice, the sentence loop and its closing test record the index
  ranges of the sentences of the word list.
\<close>

lemma scan_sentences_split:
  assumes "i = st + length cur"
    and "int (length acc) + int (length (split_sentences cur ws)) \<le> 256"
  shows "map (\<lambda>si. (start_word_idx si, end_word_idx si))
           (if snd (scan_sentences ws i st acc) < i + length ws \<and>
               int (length (fst (scan_sentences ws i st acc))) < 256
            then fst (scan_sentences ws i st acc) @
                 [\<lparr>start_word_idx = snd (scan_sentences ws i st acc),
                   end_word_idx = i + length ws - 1, delimiter = NUL\<rparr>]
            else fst (scan_sentences ws i st acc))
       = map (\<lambda>si. (start_word_idx si, end_word_idx si)) acc @
         sentence_ranges st (split_sentences cur ws)"
  using assms
proof (induction ws arbitrary: i st acc cur)
  case Nil
  then show ?case by auto
next
  case (Cons w ws)
  show ?case
  proof (cases "w \<noteq> [] \<and> is_delimiter (last w)")
    case True
    have sp: "split_sentences cur (w # ws) = (cur @ [w]) # split_sentences [] ws"
      using True by simp
    have room: "int (length acc) < 256" using Cons.prems(2) unfolding sp by simp
    let ?acc = "acc @ [\<lparr>start_word_idx = st, end_word_idx = i, delimiter = last w\<rparr>]"
    have sc: "scan_sentences (w # ws) i st acc = scan_sentences ws (Suc i) (Suc i) ?acc"
      using True room by simp
    have a1: "Suc i = Suc i + length ([] :: string list)" by simp
    have a2: "int (length ?acc) + int (length (split_sentences [] ws)) \<le> 256"
      using Cons.prems(2) unfolding sp by simp
    have len: "i + length (w # ws) = Suc i + length ws" by simp
    show ?thesis
      unfolding sc len sp
      using Cons.IH[OF a1 a2] Cons.prems(1) by simp
  next
    case False
    have sp: "split_sentences cur (w # ws) = split_sentences (cur @ [w]) ws"
      using False by auto
    have sc: "scan_sentences (w # ws) i st acc = scan_sentences ws (Suc i) st acc"
      using False by auto
    have a1: "Suc i = st + length (cur @ [w])" using Cons.prems(1) by simp
    have a2: "int (length acc) + int (length (split_sentences (cur @ [w]) ws)) \<le> 256"
      using Cons.prems(2) unfolding sp .
    have len: "i + length (w # ws) = Suc i + length ws" by simp
    show ?thesis
      unfolding sc len sp
      using Cons.IH[OF a1 a2] .
  qed
qed

lemma parse_sentences_ranges:
  assumes "int (length (split_sentences [] ws)) \<le> 256"
  shows "map (\<lambda>si. (start_word_idx si, end_word_idx si)) (parse_sentences ws)
       = sentence_ranges 0 (split_sentences [] ws)"
proof -
  have "parse_sentences ws =
      (if snd (scan_sentences ws 0 0 []) < 0 + length ws \<and>
          int (length (fst (scan_sentences ws 0 0 []))) < 256
       then fst (scan_sentences ws 0 0 []) @
            [\<lparr>start_word_idx = snd (scan_sentences ws 0 0 []),
              end_word_idx = 0 + length ws - 1, delimiter = NUL\<rparr>]
       else fst (scan_sentences ws 0 0 []))"
    by (simp add: parse_sentences_def case_prod_beta)
  then show ?thesis
    using scan_sentences_split[of 0 0 "[]" "[]" ws] assms by simp
qed

lemma parse_sentences_split:
  assumes cap: "int (length (split_sentences [] ws)) \<le> 256"
    and k: "k < length (split_sentences [] ws)"
  shows "sentence_words ws (parse_sentences ws ! k) = split_sentences [] ws ! k"
    and "take (start_word_idx (parse_sentences ws ! k)) ws = concat (take k (split_sentences [] ws))"
    and "drop (Suc (end_word_idx (parse_sentences ws ! k))) ws
           = concat (drop (Suc k) (split_sentences [] ws))"
proof -
  let ?S = "split_sentences [] ws"
  let ?si = "parse_sentences ws ! k"
  have len: "length (parse_sentences ws) = length ?S"
    using parse_sentences_ranges[OF cap] length_sentence_ranges[of 0 ?S]
    by (metis length_map)
  have "(start_word_idx ?si, end_word_idx ?si)
      = map (\<lambda>si. (start_word_idx si, end_word_idx si)) (parse_sentences ws) ! k"
    using k len by simp
  also have "\<dots> = sentence_ranges 0 ?S ! k" using parse_sentences_ranges[OF cap] by simp
  also have "\<dots> = (0 + length (concat (take k ?S)), 0 + length (concat (take (Suc k) ?S)) - 1)"
    using sentence_ranges_nth[OF k split_sentences_nonempty] .
  finally have st: "start_word_idx ?si = length (concat (take k ?S))"
    and en: "end_word_idx ?si = length (concat (take (Suc k) ?S)) - 1" by simp_all
  have sk: "?S ! k \<noteq> []" using split_sentences_nonempty k by (metis nth_mem)
  have tk: "concat (take (Suc k) ?S) = concat (take k ?S) @ ?S ! k"
    using k by (simp add: take_Suc_conv_app_nth)
  have en': "Suc (end_word_idx ?si) = length (concat (take k ?S)) + length (?S ! k)"
    using en tk sk by (cases "?S ! k") simp_all
  have "ws = concat ?S" using concat_split_sentences[of "[]" ws] by simp
  also have "\<dots> = concat (take k ?S @ ?S ! k # drop (Suc k) ?S)"
    using id_take_nth_drop[OF k] by simp
  finally have ws: "ws = concat (take k ?S) @ ?S ! k @ concat (drop (Suc k) ?S)" by simp
  show "sentence_words ws ?si = ?S ! k"
    unfolding sentence_words_def st en' by (subst ws, subst ws) simp
  show "take (start_word_idx ?si) ws = concat (take k ?S)"
    unfolding st by (subst ws) simp
  show "drop (Suc (end_word_idx ?si)) ws = concat (drop (Suc k) ?S)"
    unfolding en' by (subst ws) simp
qed

lemma length_parse_sentences_split:
  assumes "int (length (split_sentences [] ws)) \<le> 256"
  shows "length (parse_sentences ws) = length (split_sentences [] ws)"
  using parse_sentences_ranges[OF assms] length_sentence_ranges[of 0 "split_sentences [] ws"]
  by (metis length_map)

lemma map_sentence_words_split:
  assumes "int (length (split_sentences [] ws)) \<le> 256"
  shows "map (sentence_words ws) (parse_sentences ws) = split_sentences [] ws"
proof (rule nth_equalityI)
  show "length (map (sentence_words ws) (parse_sentences ws)) = length (split_sentences [] ws)"
    using length_parse_sentences_split[OF assms] by simp
next
  fix k assume "k < length (map (sentence_words ws) (parse_sentences ws))"
  then have k: "k < length (split_sentences [] ws)" and k': "k < length (parse_sentences ws)"
    using length_parse_sentences_split[OF assms] by simp_all
  show "map (sentence_words ws) (parse_sentences ws) ! k = split_sentences [] ws ! k"
    using parse_sentences_split(1)[OF assms k] k' by simp
qed

text \<open>A text within the limits is read in full.\<close>

lemma within_limits_words:
  assumes "within_limits b"
  shows "file_words b = text_words b"
proof -
  have l: "int (length b) \<le> 8191" and n: "NUL \<notin> set b"
    and w: "int (length (text_words b)) \<le> 1024"
    using assms by (simp_all add: within_limits_def)
  have "fread_8k b = b" using l by (simp add: fread_8k_def take_bytes_all)
  moreover have "c_str b = b" using n by (auto simp: c_str_def takeWhile_eq_all_conv)
  ultimately show ?thesis
    using w by (simp add: file_words_def tokenize_def text_words_def take_bytes_all)
qed

lemma within_limits_sentences:
  assumes "within_limits b"
  shows "length (file_sentences b) = length (text_sentences b)"
    and "map (sentence_words (file_words b)) (file_sentences b) = text_sentences b"
proof -
  have cap: "int (length (split_sentences [] (text_words b))) \<le> 256"
    using assms by (simp add: within_limits_def text_sentences_def)
  show "length (file_sentences b) = length (text_sentences b)"
    unfolding file_sentences_def within_limits_words[OF assms] text_sentences_def
    using length_parse_sentences_split[OF cap] .
  show "map (sentence_words (file_words b)) (file_sentences b) = text_sentences b"
    unfolding file_sentences_def within_limits_words[OF assms] text_sentences_def
    using map_sentence_words_split[OF cap] .
qed

lemma within_limits_sentence:
  assumes "within_limits b" and "k < length (text_sentences b)"
  shows "sentence_words (file_words b) (file_sentences b ! k) = text_sentences b ! k"
    and "take (start_word_idx (file_sentences b ! k)) (file_words b)
           = concat (take k (text_sentences b))"
    and "drop (Suc (end_word_idx (file_sentences b ! k))) (file_words b)
           = concat (drop (Suc k) (text_sentences b))"
proof -
  have cap: "int (length (split_sentences [] (text_words b))) \<le> 256"
    using assms(1) by (simp add: within_limits_def text_sentences_def)
  have k: "k < length (split_sentences [] (text_words b))"
    using assms(2) by (simp add: text_sentences_def)
  show "sentence_words (file_words b) (file_sentences b ! k) = text_sentences b ! k"
    unfolding file_sentences_def within_limits_words[OF assms(1)] text_sentences_def
    using parse_sentences_split(1)[OF cap k] .
  show "take (start_word_idx (file_sentences b ! k)) (file_words b)
           = concat (take k (text_sentences b))"
    unfolding file_sentences_def within_limits_words[OF assms(1)] text_sentences_def
    using parse_sentences_split(2)[OF cap k] .
  show "drop (Suc (end_word_idx (file_sentences b ! k))) (file_words b)
           = concat (drop (Suc k) (text_sentences b))"
    unfolding file_sentences_def within_limits_words[OF assms(1)] text_sentences_def
    using parse_sentences_split(3)[OF cap k] .
qed

section \<open>Properties of the lookup cache\<close>

lemma cache_find_None_iff:
  "cache_find f c = None \<longleftrightarrow> (\<forall>e\<in>set c. \<not> (is_valid e \<and> ce_filename e = f))"
  by (induction c) auto

lemma cache_find_Some:
  "cache_find f c = Some i \<Longrightarrow> i < length c \<and> is_valid (c ! i) \<and> ce_filename (c ! i) = f"
proof (induction c arbitrary: i)
  case Nil
  then show ?case by simp
next
  case (Cons e es)
  then show ?case by (auto split: if_splits)
qed

lemma scan_keeps:
  "\<forall>e\<in>set es. is_valid e \<and> old \<le> last_used_time e \<Longrightarrow> cache_add_scan es i lru old = lru"
  by (induction es arbitrary: i) auto

lemma scan_first_invalid:
  "\<forall>e\<in>set xs. is_valid e \<Longrightarrow> \<not> is_valid y \<Longrightarrow>
   cache_add_scan (xs @ y # ys) i lru old = i + length xs"
  by (induction xs arbitrary: i lru old) auto

text \<open>
  With every slot valid the scan either keeps its initial candidate, no timestamp being
  below the initial bound, or returns a slot that holds the least timestamp.
\<close>

lemma scan_all_valid:
  "\<forall>e\<in>set es. is_valid e \<Longrightarrow>
   (cache_add_scan es i lru old = lru \<and> (\<forall>e\<in>set es. old \<le> last_used_time e)) \<or>
   (i \<le> cache_add_scan es i lru old \<and> cache_add_scan es i lru old - i < length es \<and>
    last_used_time (es ! (cache_add_scan es i lru old - i)) < old \<and>
    (\<forall>e\<in>set es. last_used_time (es ! (cache_add_scan es i lru old - i)) \<le> last_used_time e))"
proof (induction es arbitrary: i lru old)
  case Nil
  then show ?case by simp
next
  case (Cons e es)
  have v: "\<forall>x\<in>set es. is_valid x" and ve: "is_valid e" using Cons.prems by auto
  show ?case
  proof (cases "last_used_time e < old")
    case True
    let ?r = "cache_add_scan es (Suc i) i (last_used_time e)"
    have eq: "cache_add_scan (e # es) i lru old = ?r" using True ve by simp
    from Cons.IH[OF v, of "Suc i" i "last_used_time e"]
    show ?thesis
    proof
      assume a: "?r = i \<and> (\<forall>x\<in>set es. last_used_time e \<le> last_used_time x)"
      then show ?thesis using True eq by auto
    next
      assume a: "Suc i \<le> ?r \<and> ?r - Suc i < length es \<and>
        last_used_time (es ! (?r - Suc i)) < last_used_time e \<and>
        (\<forall>x\<in>set es. last_used_time (es ! (?r - Suc i)) \<le> last_used_time x)"
      then have "?r - i = Suc (?r - Suc i)" by arith
      then show ?thesis using a True eq by auto
    qed
  next
    case False
    let ?r = "cache_add_scan es (Suc i) lru old"
    have eq: "cache_add_scan (e # es) i lru old = ?r" using False ve by simp
    from Cons.IH[OF v, of "Suc i" lru old]
    show ?thesis
    proof
      assume a: "?r = lru \<and> (\<forall>x\<in>set es. old \<le> last_used_time x)"
      then show ?thesis using False eq by auto
    next
      assume a: "Suc i \<le> ?r \<and> ?r - Suc i < length es \<and>
        last_used_time (es ! (?r - Suc i)) < old \<and>
        (\<forall>x\<in>set es. last_used_time (es ! (?r - Suc i)) \<le> last_used_time x)"
      then have "?r - i = Suc (?r - Suc i)" by arith
      then show ?thesis using a False eq by auto
    qed
  qed
qed

lemma scan_min:
  assumes v: "\<forall>e\<in>set cache. is_valid e \<and> last_used_time e \<le> now" and ne: "cache \<noteq> []"
  shows "cache_add_scan cache 0 0 now < length cache \<and>
         (\<forall>e\<in>set cache. last_used_time (cache ! cache_add_scan cache 0 0 now) \<le> last_used_time e)"
proof -
  have v': "\<forall>e\<in>set cache. is_valid e" using v by auto
  from scan_all_valid[OF v', of 0 0 now]
  show ?thesis
  proof
    assume a: "cache_add_scan cache 0 0 now = 0 \<and> (\<forall>e\<in>set cache. now \<le> last_used_time e)"
    have "cache ! 0 \<in> set cache" using ne by simp
    then have "last_used_time (cache ! 0) \<le> now" using v by blast
    then show ?thesis using a ne by fastforce
  next
    assume "0 \<le> cache_add_scan cache 0 0 now \<and> cache_add_scan cache 0 0 now - 0 < length cache \<and>
      last_used_time (cache ! (cache_add_scan cache 0 0 now - 0)) < now \<and>
      (\<forall>e\<in>set cache. last_used_time (cache ! (cache_add_scan cache 0 0 now - 0)) \<le> last_used_time e)"
    then show ?thesis by simp
  qed
qed

lemma scan_not_newer:
  assumes v: "\<forall>e\<in>set cache. is_valid e"
    and i: "i < length cache" and j: "j < length cache"
    and lt: "last_used_time (cache ! i) < last_used_time (cache ! j)"
    and le: "last_used_time (cache ! j) \<le> now"
  shows "cache_add_scan cache 0 0 now \<noteq> j"
proof -
  have mi: "cache ! i \<in> set cache" and mj: "cache ! j \<in> set cache" using i j by simp_all
  from scan_all_valid[OF v, of 0 0 now]
  show ?thesis
  proof
    assume "cache_add_scan cache 0 0 now = 0 \<and> (\<forall>e\<in>set cache. now \<le> last_used_time e)"
    then have "now \<le> last_used_time (cache ! i)" using mi by blast
    then show ?thesis using lt le by simp
  next
    assume "0 \<le> cache_add_scan cache 0 0 now \<and> cache_add_scan cache 0 0 now - 0 < length cache \<and>
      last_used_time (cache ! (cache_add_scan cache 0 0 now - 0)) < now \<and>
      (\<forall>e\<in>set cache. last_used_time (cache ! (cache_add_scan cache 0 0 now - 0)) \<le> last_used_time e)"
    then have "last_used_time (cache ! cache_add_scan cache 0 0 now) \<le> last_used_time (cache ! i)"
      using mi by simp
    then show ?thesis using lt by auto
  qed
qed

lemma scan_invalid_slot:
  assumes "\<exists>e\<in>set cache. \<not> is_valid e"
  shows "cache_add_scan cache i lru old - i < length cache \<and> i \<le> cache_add_scan cache i lru old \<and>
         \<not> is_valid (cache ! (cache_add_scan cache i lru old - i)) \<and>
         (\<forall>k < cache_add_scan cache i lru old - i. is_valid (cache ! k))"
proof -
  from assms obtain xs y ys where sp: "cache = xs @ y # ys" "\<not> is_valid y" "\<forall>e\<in>set xs. is_valid e"
    using split_list_first_prop[of cache "\<lambda>e. \<not> is_valid e"] by auto
  have "cache_add_scan cache i lru old = i + length xs"
    using scan_first_invalid[of xs y ys i lru old] sp by simp
  then show ?thesis using sp by (auto simp: nth_append)
qed

lemma scan_hd_oldest:
  assumes "is_valid e0" and "\<forall>e\<in>set es. is_valid e \<and> last_used_time e0 \<le> last_used_time e"
  shows "cache_add_scan (e0 # es) 0 0 now = 0"
proof (cases "last_used_time e0 < now")
  case True
  then show ?thesis using assms scan_keeps[of es "last_used_time e0" "Suc 0" 0] by simp
next
  case False
  then have "\<forall>e\<in>set es. is_valid e \<and> now \<le> last_used_time e" using assms(2) by fastforce
  then show ?thesis using assms(1) False scan_keeps[of es now "Suc 0" 0] by simp
qed

lemma length_search_find_file:
  "length (snd (search_find_file now f (root, cache))) = length cache"
  by (simp add: search_find_file_def cache_lookup_def cache_add_def Let_def split: option.splits)

lemma length_run_finds: "length (run_finds root steps cache) = length cache"
proof (induction steps arbitrary: cache)
  case Nil
  then show ?case by simp
next
  case (Cons x steps)
  obtain now f where x: "x = (now, f)" by (cases x)
  show ?case unfolding x using Cons.IH length_search_find_file by simp
qed

lemma find_miss_adds:
  assumes "cache_find f cache = None" and "trie_ss_index root f \<noteq> - 1"
  shows "search_find_file now f (root, cache) =
     (trie_ss_index root f,
      cache[cache_add_scan cache 0 0 now :=
        \<lparr>ce_filename = strncpy (MAX_FILENAME - 1) f, ce_ss_index = trie_ss_index root f,
         is_valid = True, last_used_time = now\<rparr>])"
  using assms by (simp add: search_find_file_def cache_lookup_def cache_add_def Let_def)

lemma find_hit_renews:
  assumes "cache_find f cache = Some i" and "ce_ss_index (cache ! i) \<noteq> - 1"
  shows "search_find_file now f (root, cache) =
     (ce_ss_index (cache ! i), cache[i := (cache ! i)\<lparr>last_used_time := now\<rparr>])"
  using assms by (simp add: search_find_file_def cache_lookup_def)

lemma find_step_fill:
  assumes nf: "f \<notin> set (map (\<lambda>x. fst (snd x)) done)"
    and ss: "trie_ss_index root f \<noteq> - 1"
    and len: "length f \<le> 255"
  shows "snd (search_find_file now f (root, map mk_entry done @ empty_entry # replicate m empty_entry))
         = map mk_entry (done @ [(now, f, trie_ss_index root f)]) @ replicate m empty_entry"
proof -
  let ?c = "map mk_entry done @ empty_entry # replicate m empty_entry"
  have miss: "cache_find f ?c = None"
  proof -
    have "\<And>e. e \<in> set ?c \<Longrightarrow> \<not> (is_valid e \<and> ce_filename e = f)"
    proof -
      fix e assume "e \<in> set ?c"
      then consider "e \<in> mk_entry ` set done" | "e = empty_entry" by auto
      then show "\<not> (is_valid e \<and> ce_filename e = f)"
      proof cases
        case 1
        then obtain x where "x \<in> set done" "e = mk_entry x" by blast
        then show ?thesis using nf by (auto simp: mk_entry_def)
      next
        case 2
        then show ?thesis by (simp add: empty_entry_def)
      qed
    qed
    then show ?thesis unfolding cache_find_None_iff by blast
  qed
  have sc: "cache_add_scan ?c 0 0 now = length done"
    using scan_first_invalid[of "map mk_entry done" empty_entry "replicate m empty_entry" 0 0 now]
    by (simp add: mk_entry_def empty_entry_def)
  have upd: "?c[length (map mk_entry done) := mk_entry (now, f, trie_ss_index root f)]
        = map mk_entry done @ mk_entry (now, f, trie_ss_index root f) # replicate m empty_entry"
    by (rule list_update_length)
  have cp: "strncpy (MAX_FILENAME - 1) f = f"
    using len by (simp add: strncpy_short MAX_FILENAME_def)
  show ?thesis
    unfolding find_miss_adds[OF miss ss] sc cp using upd by (simp add: mk_entry_def)
qed

lemma run_finds_append:
  "run_finds root (xs @ ys) c = run_finds root ys (run_finds root xs c)"
  by (induction xs arbitrary: c) auto

lemma run_finds_fill:
  assumes "distinct (map (\<lambda>x. fst (snd x)) done @ map snd steps)"
    and "\<forall>x\<in>set steps. length (snd x) \<le> 255 \<and> trie_ss_index root (snd x) \<noteq> - 1"
    and "length steps \<le> m"
  shows "run_finds root steps (map mk_entry done @ replicate m empty_entry)
       = map mk_entry (done @ map (found_ss root) steps) @ replicate (m - length steps) empty_entry"
  using assms
proof (induction steps arbitrary: "done" m)
  case Nil
  then show ?case by simp
next
  case (Cons x steps)
  obtain now f where x: "x = (now, f)" by (cases x)
  from Cons.prems(2) x have ss: "trie_ss_index root f \<noteq> - 1" and lf: "length f \<le> 255" by auto
  from Cons.prems(3) obtain m' where m: "m = Suc m'" by (cases m) auto
  have nf: "f \<notin> set (map (\<lambda>x. fst (snd x)) done)" using Cons.prems(1) x by auto
  have step: "snd (search_find_file now f (root, map mk_entry done @ replicate m empty_entry))
      = map mk_entry (done @ [(now, f, trie_ss_index root f)]) @ replicate m' empty_entry"
    using find_step_fill[OF nf ss lf, of now m'] m by simp
  have d': "distinct (map (\<lambda>x. fst (snd x)) (done @ [(now, f, trie_ss_index root f)]) @ map snd steps)"
    using Cons.prems(1) x by auto
  have ok': "\<forall>x\<in>set steps. length (snd x) \<le> 255 \<and> trie_ss_index root (snd x) \<noteq> - 1"
    using Cons.prems(2) by simp
  have l': "length steps \<le> m'" using Cons.prems(3) m by simp
  have fs: "found_ss root x = (now, f, trie_ss_index root f)" using x by (simp add: found_ss_def)
  show ?case
    using Cons.IH[OF d' ok' l'] step x m fs by simp
qed

lemma init_cache_eq: "init_cache = replicate 16 empty_entry"
  by (simp add: init_cache_def CACHE_SIZE_def empty_entry_def)

lemma lru_seventeen:
  assumes len: "length steps = 17" and dist: "distinct (map snd steps)"
    and ok: "\<forall>x\<in>set steps. length (snd x) \<le> 255 \<and> trie_ss_index root (snd x) \<noteq> - 1"
    and mono: "sorted (map fst steps)"
  shows "cache_find (snd (hd steps)) (run_finds root steps init_cache) = None"
proof -
  have "steps \<noteq> []" using len by auto
  then have sp: "steps = butlast steps @ [last steps]" by simp
  define s16 where "s16 = butlast steps"
  define x17 where "x17 = last steps"
  have sp: "steps = s16 @ [x17]" using sp s16_def x17_def by simp
  have l16: "length s16 = 16" using len s16_def by simp
  obtain x1 rest where s16: "s16 = x1 # rest" using l16 by (cases s16) auto
  obtain t17 f17 where x17: "x17 = (t17, f17)" by (cases x17)
  have d16: "distinct (map (\<lambda>x. fst (snd x)) [] @ map snd s16)" using dist sp by simp
  have ok16: "\<forall>x\<in>set s16. length (snd x) \<le> 255 \<and> trie_ss_index root (snd x) \<noteq> - 1"
    using ok sp by simp
  have c16: "run_finds root s16 init_cache = map mk_entry (map (found_ss root) s16)"
    using run_finds_fill[OF d16 ok16, of 16] l16 by (simp add: init_cache_eq)
  let ?c = "map mk_entry (map (found_ss root) s16)"
  let ?new = "\<lparr>ce_filename = f17, ce_ss_index = trie_ss_index root f17, is_valid = True,
               last_used_time = t17\<rparr>"
  from ok sp x17 have ss: "trie_ss_index root f17 \<noteq> - 1" and lf: "length f17 \<le> 255" by auto
  have f17n: "f17 \<notin> set (map snd s16)" using dist sp x17 by auto
  have miss: "cache_find f17 ?c = None"
    unfolding cache_find_None_iff
  proof
    fix e assume "e \<in> set ?c"
    then obtain x where x: "x \<in> set s16" "e = mk_entry (found_ss root x)" by auto
    then have "ce_filename e = snd x" by (simp add: mk_entry_def found_ss_def)
    moreover have "snd x \<in> set (map snd s16)" using x(1) by simp
    ultimately show "\<not> (is_valid e \<and> ce_filename e = f17)" using f17n by metis
  qed
  have srt: "sorted (map fst s16)" using mono sp by (simp add: sorted_append)
  have hdmin: "\<forall>e\<in>set (map mk_entry (map (found_ss root) rest)).
        is_valid e \<and> last_used_time (mk_entry (found_ss root x1)) \<le> last_used_time e"
    using srt s16 by (auto simp: mk_entry_def found_ss_def)
  have sc: "cache_add_scan ?c 0 0 t17 = 0"
    using scan_hd_oldest[OF _ hdmin, of t17] s16 by (simp add: mk_entry_def)
  have cp: "strncpy (MAX_FILENAME - 1) f17 = f17"
    using lf by (simp add: strncpy_short MAX_FILENAME_def)
  have fin: "snd (search_find_file t17 f17 (root, ?c)) = ?c[0 := ?new]"
    unfolding find_miss_adds[OF miss ss] sc cp by simp
  have res: "run_finds root steps init_cache = ?new # map mk_entry (map (found_ss root) rest)"
  proof -
    have "run_finds root steps init_cache = run_finds root [x17] (run_finds root s16 init_cache)"
      unfolding sp by (rule run_finds_append)
    also have "\<dots> = snd (search_find_file t17 f17 (root, ?c))"
      unfolding c16 x17 by simp
    also have "\<dots> = ?new # map mk_entry (map (found_ss root) rest)"
      using fin s16 by simp
    finally show ?thesis .
  qed
  have hd: "snd (hd steps) = snd x1" using sp s16 by simp
  have x1n: "snd x1 \<noteq> f17" "snd x1 \<notin> set (map snd rest)" using dist sp s16 x17 by auto
  have "\<forall>e\<in>set (map mk_entry (map (found_ss root) rest)). ce_filename e \<noteq> snd x1"
  proof
    fix e assume "e \<in> set (map mk_entry (map (found_ss root) rest))"
    then obtain x where x: "x \<in> set rest" "e = mk_entry (found_ss root x)" by auto
    then have "ce_filename e = snd x" by (simp add: mk_entry_def found_ss_def)
    moreover have "snd x \<in> set (map snd rest)" using x(1) by simp
    ultimately show "ce_filename e \<noteq> snd x1" using x1n(2) by metis
  qed
  then show ?thesis
    unfolding res hd cache_find_None_iff using x1n(1) by auto
qed

lemma touched_retained:
  assumes hit: "cache_find f cache = Some j"
    and ssv: "\<forall>e\<in>set cache. is_valid e \<longrightarrow> ce_ss_index e \<noteq> - 1"
    and older: "i < length cache" "is_valid (cache ! i) \<longrightarrow> last_used_time (cache ! i) < t1" "i \<noteq> j"
    and tt: "t1 \<le> t2"
  shows "cache_find f (snd (search_find_file t2 g (root,
            snd (search_find_file t1 f (root, cache))))) \<noteq> None"
proof -
  from cache_find_Some[OF hit] have j: "j < length cache" "is_valid (cache ! j)" "ce_filename (cache ! j) = f"
    by simp_all
  have "cache ! j \<in> set cache" using j(1) by simp
  then have ssj: "ce_ss_index (cache ! j) \<noteq> - 1" using ssv j(2) by blast
  let ?c1 = "cache[j := (cache ! j)\<lparr>last_used_time := t1\<rparr>]"
  have s1: "snd (search_find_file t1 f (root, cache)) = ?c1"
    unfolding find_hit_renews[OF hit ssj] by simp
  have c1j: "?c1 ! j = (cache ! j)\<lparr>last_used_time := t1\<rparr>" using j(1) by simp
  have c1i: "?c1 ! i = cache ! i" using older(3) by simp
  have len1: "length ?c1 = length cache" by simp
  have ssv1: "\<forall>e\<in>set ?c1. is_valid e \<longrightarrow> ce_ss_index e \<noteq> - 1"
  proof
    fix e assume "e \<in> set ?c1"
    then have "e \<in> insert ((cache ! j)\<lparr>last_used_time := t1\<rparr>) (set cache)"
      using set_update_subset_insert by fastforce
    then show "is_valid e \<longrightarrow> ce_ss_index e \<noteq> - 1" using ssv ssj by auto
  qed
  have keep: "\<And>c2. length c2 = length cache \<Longrightarrow> is_valid (c2 ! j) \<Longrightarrow> ce_filename (c2 ! j) = f
      \<Longrightarrow> cache_find f c2 \<noteq> None"
  proof -
    fix c2 :: "CacheEntry list"
    assume a: "length c2 = length cache" "is_valid (c2 ! j)" "ce_filename (c2 ! j) = f"
    then have "c2 ! j \<in> set c2" using j(1) by simp
    then show "cache_find f c2 \<noteq> None" unfolding cache_find_None_iff using a by blast
  qed
  show ?thesis
  proof (cases "cache_find g ?c1")
    case (Some k)
    from cache_find_Some[OF Some] have k: "k < length ?c1" "is_valid (?c1 ! k)" by simp_all
    then have "?c1 ! k \<in> set ?c1" by (metis nth_mem)
    then have ssk: "ce_ss_index (?c1 ! k) \<noteq> - 1" using ssv1 k(2) by blast
    have s2: "snd (search_find_file t2 g (root, ?c1)) = ?c1[k := (?c1 ! k)\<lparr>last_used_time := t2\<rparr>]"
      unfolding find_hit_renews[OF Some ssk] by simp
    have "is_valid (?c1[k := (?c1 ! k)\<lparr>last_used_time := t2\<rparr>] ! j)
        \<and> ce_filename (?c1[k := (?c1 ! k)\<lparr>last_used_time := t2\<rparr>] ! j) = f"
      using j k by (cases "k = j") simp_all
    then show ?thesis unfolding s1 s2 using keep by simp
  next
    case None
    show ?thesis
    proof (cases "trie_ss_index root g \<noteq> - 1")
      case False
      then have s2: "snd (search_find_file t2 g (root, ?c1)) = ?c1"
        using None by (simp add: search_find_file_def cache_lookup_def Let_def)
      show ?thesis unfolding s1 s2 using keep[of ?c1] j by simp
    next
      case True
      let ?v = "cache_add_scan ?c1 0 0 t2"
      let ?new = "\<lparr>ce_filename = strncpy (MAX_FILENAME - 1) g, ce_ss_index = trie_ss_index root g,
            is_valid = True, last_used_time = t2\<rparr>"
      have s2: "snd (search_find_file t2 g (root, ?c1)) = ?c1[?v := ?new]"
        unfolding find_miss_adds[OF None True] by simp
      have vj: "?v \<noteq> j"
      proof (cases "\<exists>e\<in>set ?c1. \<not> is_valid e")
        case True
        from scan_invalid_slot[OF True, of 0 0 t2] have "\<not> is_valid (?c1 ! ?v)" by simp
        then show ?thesis using c1j j(2) by auto
      next
        case False
        then have av: "\<forall>e\<in>set ?c1. is_valid e" by blast
        have "?c1 ! i \<in> set ?c1" using older(1) len1 by (metis nth_mem)
        then have "is_valid (cache ! i)" using av c1i by simp
        then have lt: "last_used_time (?c1 ! i) < last_used_time (?c1 ! j)"
          using older(2) c1i c1j by simp
        have le: "last_used_time (?c1 ! j) \<le> t2" using c1j tt by simp
        show ?thesis
          using scan_not_newer[OF av _ _ lt le] older(1) j(1) len1 by simp
      qed
      have "?c1[?v := ?new] ! j = ?c1 ! j" using vj by simp
      then have "is_valid (?c1[?v := ?new] ! j) \<and> ce_filename (?c1[?v := ?new] ! j) = f"
        using c1j j by simp
      then show ?thesis unfolding s1 s2 using keep by simp
    qed
  qed
qed

text \<open>
  Claim C8, as stated, promises that an entry touched by a lookup between insertions
  survives. The timestamps are whole seconds: when the sixteen insertions, the touch of
  \<open>a\<close> and the seventeenth lookup fall in the same second, no slot is strictly older than
  "now", the scan keeps slot 0, and the entry just touched is the one evicted.
\<close>

theorem cache_touch_same_second_evicted:
  "cache_find ''a'' cache16 = Some 0 \<and>
   fst (search_find_file 100 ''a'' (trie17, cache16)) = 0 \<and>
   cache_find ''q'' (snd (search_find_file 100 ''a'' (trie17, cache16))) = None \<and>
   cache_find ''a'' (run_finds trie17 [(100, ''a''), (100, ''q'')] cache16) = None"
  by code_simp

text \<open>
  Claim C8, amended. The cache keeps its 16 slots. A miss whose trie lookup succeeds
  writes the new entry into the slot chosen by the scan: the first invalid slot if there
  is one, and otherwise, all timestamps being at most the current second, a slot holding
  the least last-used timestamp. A hit renews the timestamp of the entry. After 17
  lookups of distinct existing files at non-decreasing clock readings, starting from the
  empty cache, the file looked up first is no longer cached. An entry touched by a lookup
  survives the following lookup of another file provided some other slot is invalid or
  carries a timestamp strictly before the touch.
\<close>

theorem cache_lru_discipline:
  "(\<forall>root steps. length (run_finds root steps init_cache) = CACHE_SIZE) \<and>
   (\<forall>now f root cache. cache_find f cache = None \<and> trie_ss_index root f \<noteq> - 1 \<longrightarrow>
      search_find_file now f (root, cache) =
        (trie_ss_index root f,
         cache[cache_add_scan cache 0 0 now :=
           \<lparr>ce_filename = strncpy (MAX_FILENAME - 1) f, ce_ss_index = trie_ss_index root f,
            is_valid = True, last_used_time = now\<rparr>])) \<and>
   (\<forall>now cache. (\<exists>e\<in>set cache. \<not> is_valid e) \<longrightarrow>
      cache_add_scan cache 0 0 now < length cache \<and>
      \<not> is_valid (cache ! cache_add_scan cache 0 0 now) \<and>
      (\<forall>k < cache_add_scan cache 0 0 now. is_valid (cache ! k))) \<and>
   (\<forall>now cache. cache \<noteq> [] \<and> (\<forall>e\<in>set cache. is_valid e \<and> last_used_time e \<le> now) \<longrightarrow>
      cache_add_scan cache 0 0 now < length cache \<and>
      (\<forall>e\<in>set cache. last_used_time (cache ! cache_add_scan cache 0 0 now) \<le> last_used_time e)) \<and>
   (\<forall>now f root cache i. cache_find f cache = Some i \<and> ce_ss_index (cache ! i) \<noteq> - 1 \<longrightarrow>
      search_find_file now f (root, cache) =
        (ce_ss_index (cache ! i), cache[i := (cache ! i)\<lparr>last_used_time := now\<rparr>])) \<and>
   (\<forall>root steps. length steps = 17 \<and> distinct (map snd steps) \<and> sorted (map fst steps) \<and>
      (\<forall>x\<in>set steps. length (snd x) \<le> 255 \<and> trie_ss_index root (snd x) \<noteq> - 1) \<longrightarrow>
      cache_find (snd (hd steps)) (run_finds root steps init_cache) = None) \<and>
   (\<forall>root cache f g j i t1 t2.
      cache_find f cache = Some j \<and> (\<forall>e\<in>set cache. is_valid e \<longrightarrow> ce_ss_index e \<noteq> - 1) \<and>
      i < length cache \<and> i \<noteq> j \<and> (is_valid (cache ! i) \<longrightarrow> last_used_time (cache ! i) < t1) \<and>
      t1 \<le> t2 \<longrightarrow>
      cache_find f (snd (search_find_file t2 g (root, snd (search_find_file t1 f (root, cache)))))
        \<noteq> None)"
proof (intro conjI allI impI)
  fix root and steps :: "(int \<times> string) list"
  show "length (run_finds root steps init_cache) = CACHE_SIZE"
    by (simp add: length_run_finds init_cache_def)
next
  fix now :: int and f :: string and root :: TrieNode and cache :: "CacheEntry list"
  assume "cache_find f cache = None \<and> trie_ss_index root f \<noteq> - 1"
  then show "search_find_file now f (root, cache) =
        (trie_ss_index root f,
         cache[cache_add_scan cache 0 0 now :=
           \<lparr>ce_filename = strncpy (MAX_FILENAME - 1) f, ce_ss_index = trie_ss_index root f,
            is_valid = True, last_used_time = now\<rparr>])"
    using find_miss_adds by blast
next
  fix now :: int and cache :: "CacheEntry list"
  assume a: "\<exists>e\<in>set cache. \<not> is_valid e"
  from scan_invalid_slot[OF a, of 0 0 now]
  show "cache_add_scan cache 0 0 now < length cache" by simp
  from scan_invalid_slot[OF a, of 0 0 now]
  show "\<not> is_valid (cache ! cache_add_scan cache 0 0 now)" by simp
  fix k assume "k < cache_add_scan cache 0 0 now"
  with scan_invalid_slot[OF a, of 0 0 now] show "is_valid (cache ! k)" by simp
next
  fix now :: int and cache :: "CacheEntry list"
  assume a: "cache \<noteq> [] \<and> (\<forall>e\<in>set cache. is_valid e \<and> last_used_time e \<le> now)"
  then have v: "\<forall>e\<in>set cache. is_valid e \<and> last_used_time e \<le> now" and ne: "cache \<noteq> []"
    by simp_all
  from scan_min[OF v ne] show "cache_add_scan cache 0 0 now < length cache" by simp
  from scan_min[OF v ne]
  show "\<forall>e\<in>set cache. last_used_time (cache ! cache_add_scan cache 0 0 now) \<le> last_used_time e"
    by simp
next
  fix now :: int and f :: string and root :: TrieNode and cache :: "CacheEntry list" and i :: nat
  assume "cache_find f cache = Some i \<and> ce_ss_index (cache ! i) \<noteq> - 1"
  then show "search_find_file now f (root, cache) =
        (ce_ss_index (cache ! i), cache[i := (cache ! i)\<lparr>last_used_time := now\<rparr>])"
    using find_hit_renews by blast
next
  fix root :: TrieNode and steps :: "(int \<times> string) list"
  assume "length steps = 17 \<and> distinct (map snd steps) \<and> sorted (map fst steps) \<and>
      (\<forall>x\<in>set steps. length (snd x) \<le> 255 \<and> trie_ss_index root (snd x) \<noteq> - 1)"
  then show "cache_find (snd (hd steps)) (run_finds root steps init_cache) = None"
    using lru_seventeen by blast
next
  fix root :: TrieNode and cache :: "CacheEntry list" and f g :: string and j i :: nat
    and t1 t2 :: int
  assume a: "cache_find f cache = Some j \<and> (\<forall>e\<in>set cache. is_valid e \<longrightarrow> ce_ss_index e \<noteq> - 1) \<and>
      i < length cache \<and> i \<noteq> j \<and> (is_valid (cache ! i) \<longrightarrow> last_used_time (cache ! i) < t1) \<and>
      t1 \<le> t2"
  then have h: "cache_find f cache = Some j" "\<forall>e\<in>set cache. is_valid e \<longrightarrow> ce_ss_index e \<noteq> - 1"
    "i < length cache" "is_valid (cache ! i) \<longrightarrow> last_used_time (cache ! i) < t1" "i \<noteq> j" "t1 \<le> t2"
    by simp_all
  show "cache_find f (snd (search_find_file t2 g (root, snd (search_find_file t1 f (root, cache)))))
        \<noteq> None"
    by (rule touched_retained[OF h])
qed

text \<open>
  The amended claim at concrete inputs: seventeen lookups in one second evict \<open>a\<close>, and
  \<open>a\<close>, touched one second after the sixteen insertions, survives the lookup of \<open>q\<close>.
\<close>

theorem cache_lru_discipline_witness:
  "length (map (\<lambda>n. (100::int, n)) names17) = 17 \<and>
   cache_find ''a'' (run_finds trie17 (map (\<lambda>n. (100::int, n)) names17) init_cache) = None \<and>
   cache_find ''a'' cache16 = Some 0 \<and>
   cache_find ''a'' (snd (search_find_file 101 ''q'' (trie17,
       snd (search_find_file 101 ''a'' (trie17, cache16))))) \<noteq> None"
proof -
  let ?steps = "map (\<lambda>n. (100::int, n)) names17"
  have h17: "length ?steps = 17 \<and> distinct (map snd ?steps) \<and> sorted (map fst ?steps) \<and>
      (\<forall>x\<in>set ?steps. length (snd x) \<le> 255 \<and> trie_ss_index trie17 (snd x) \<noteq> - 1)"
    by code_simp
  have hd: "snd (hd ?steps) = ''a''" by code_simp
  have r17: "cache_find ''a'' (run_finds trie17 ?steps init_cache) = None"
    using cache_lru_discipline[THEN conjunct2, THEN conjunct2, THEN conjunct2, THEN conjunct2,
        THEN conjunct2, THEN conjunct1, rule_format, OF h17] hd by simp
  have ht: "cache_find ''a'' cache16 = Some 0 \<and>
      (\<forall>e\<in>set cache16. is_valid e \<longrightarrow> ce_ss_index e \<noteq> - 1) \<and>
      1 < length cache16 \<and> (1::nat) \<noteq> 0 \<and>
      (is_valid (cache16 ! 1) \<longrightarrow> last_used_time (cache16 ! 1) < 101) \<and> (101::int) \<le> 101"
    by code_simp
  have rt: "cache_find ''a'' (snd (search_find_file 101 ''q'' (trie17,
       snd (search_find_file 101 ''a'' (trie17, cache16))))) \<noteq> None"
    using cache_lru_discipline[THEN conjunct2, THEN conjunct2, THEN conjunct2, THEN conjunct2,
        THEN conjunct2, THEN conjunct2, rule_format, OF ht] .
  show ?thesis using h17 r17 ht rt by blast
qed

section \<open>Folder rename\<close>

text \<open>
  Claim C5 says that a file whose folder does not have \<open>src\<close> as a segment-aligned prefix
  keeps its folder, naming folder \<open>ab\<close> against \<open>src = a\<close>. \<open>search_move_folder\<close> tests
  \<open>starts_with\<close>, a plain byte prefix: with folders \<open>a\<close> and \<open>ab\<close> registered, \<open>f1\<close> in
  \<open>a\<close> and \<open>f2\<close> in \<open>ab\<close>, moving \<open>a\<close> to \<open>c\<close> rewrites the folder of \<open>f2\<close> to \<open>c/b\<close> and
  reports both files as updated.
\<close>

theorem move_folder_rewrites_unaligned_prefix:
  "map_option folder (find_file_record trie_ab ''f2'') = Some ''ab'' \<and>
   fst (search_move_folder ''a'' ''c'' ''alice'' 4096 (folders_ab, trie_ab)) = 2 \<and>
   map_option folder (find_file_record
      (snd (snd (snd (search_move_folder ''a'' ''c'' ''alice'' 4096 (folders_ab, trie_ab))))) ''f1'')
     = Some ''c'' \<and>
   map_option folder (find_file_record
      (snd (snd (snd (search_move_folder ''a'' ''c'' ''alice'' 4096 (folders_ab, trie_ab))))) ''f2'')
     = Some ''c/b''"
  by code_simp

section \<open>The owner and the ACL\<close>

lemma find_same_children:
  "find_file_record (TrieNode v (children n)) g = find_file_record n g \<or>
   find_file_record (TrieNode v (children n)) g = v"
proof (induction g)
  case Nil
  then show ?case by simp
next
  case (Cons c cs)
  then show ?case by (cases "valid_index c") (simp_all add: child_def)
qed

lemma child_update:
  "child (TrieNode fi (ch[i := x])) j =
     (if j = i \<and> i < length ch then x else child (TrieNode fi ch) j)"
  by (simp add: child_def nth_list_update)

lemma child_eta: "child (TrieNode (file_info n) (children n)) j = child n j"
  by (simp add: child_def)

text \<open>A write through the pointer is seen by a lookup either as the new value or not at all.\<close>

lemma find_set_cases:
  "find_file_record (set_file_record root f v) g = find_file_record root g \<or>
   find_file_record (set_file_record root f v) g = v"
proof (induction f arbitrary: root g)
  case Nil
  show ?case using find_same_children[of v root g] by simp
next
  case (Cons c cs)
  show ?case
  proof (cases "valid_index c")
    case False
    then show ?thesis using Cons.IH by simp
  next
    case True
    show ?thesis
    proof (cases "child root (char_index c)")
      case None
      then show ?thesis using True by simp
    next
      case (Some nxt)
      let ?new = "TrieNode (file_info root)
                    ((children root)[char_index c := Some (set_file_record nxt cs v)])"
      have new: "set_file_record root (c # cs) v = ?new" using True Some by simp
      have il: "char_index c < length (children root)"
        using Some by (simp add: child_def split: if_splits)
      have oIH: "\<And>h. find_file_record (set_file_record nxt cs v) h = find_file_record nxt h \<or>
          find_file_record (set_file_record nxt cs v) h = v"
        using Cons.IH by blast
      have "find_file_record ?new g = find_file_record root g \<or> find_file_record ?new g = v"
      proof (induction g)
        case Nil
        then show ?case by simp
      next
        case (Cons d ds)
        show ?case
        proof (cases "valid_index d")
          case False
          then show ?thesis using Cons.IH by simp
        next
          case vd: True
          show ?thesis
          proof (cases "char_index d = char_index c")
            case True
            then have "child ?new (char_index d) = Some (set_file_record nxt cs v)"
              using il by (simp add: child_update)
            moreover have "child root (char_index d) = Some nxt" using True Some by simp
            ultimately show ?thesis using vd oIH[of ds] by simp
          next
            case False
            then have "child ?new (char_index d) = child root (char_index d)"
              by (simp add: child_update child_eta)
            then show ?thesis using vd by simp
          qed
        qed
      qed
      then show ?thesis unfolding new .
    qed
  qed
qed

lemma find_create_node: "find_file_record create_node g = None"
  by (induction g) (simp_all add: create_node_def child_def valid_index_def)

text \<open>Linking a record at the end of a creating walk: a lookup sees the old state or the link.\<close>

lemma find_walk_create_cases:
  "find_file_record (walk_create root f link) g = find_file_record root g \<or>
   find_file_record (walk_create root f link) g = link (find_file_record root f)"
proof (induction f arbitrary: root g)
  case Nil
  show ?case using find_same_children[of "link (file_info root)" root g] by simp
next
  case (Cons c cs)
  show ?case
  proof (cases "valid_index c")
    case False
    then show ?thesis using Cons.IH by simp
  next
    case True
    define nxt where "nxt = (case child root (char_index c) of None \<Rightarrow> create_node | Some n \<Rightarrow> n)"
    let ?new = "TrieNode (file_info root)
                  ((children root)[char_index c := Some (walk_create nxt cs link)])"
    have new: "walk_create root (c # cs) link = ?new" using True by (simp add: nxt_def)
    have fnxt: "\<And>h. find_file_record nxt h =
        (case child root (char_index c) of None \<Rightarrow> None | Some n \<Rightarrow> find_file_record n h)"
      by (simp add: nxt_def find_create_node split: option.splits)
    have froot: "find_file_record root (c # cs) = find_file_record nxt cs"
      using True fnxt by (simp split: option.splits)
    have oIH: "\<And>h. find_file_record (walk_create nxt cs link) h = find_file_record nxt h \<or>
        find_file_record (walk_create nxt cs link) h = link (find_file_record nxt cs)"
      using Cons.IH by blast
    have "find_file_record ?new g = find_file_record root g \<or>
          find_file_record ?new g = link (find_file_record nxt cs)"
    proof (induction g)
      case Nil
      then show ?case by simp
    next
      case (Cons d ds)
      show ?case
      proof (cases "valid_index d")
        case False
        then show ?thesis using Cons.IH by simp
      next
        case vd: True
        show ?thesis
        proof (cases "char_index d = char_index c \<and> char_index c < length (children root)")
          case True
          then have "child ?new (char_index d) = Some (walk_create nxt cs link)"
            by (simp add: child_update)
          moreover have "find_file_record root (d # ds) = find_file_record nxt ds"
            using vd True fnxt by (simp split: option.splits)
          ultimately show ?thesis using vd oIH[of ds] by simp
        next
          case False
          then have "child ?new (char_index d) = child root (char_index d)"
            by (auto simp: child_update child_eta)
          then show ?thesis using vd by simp
        qed
      qed
    qed
    then show ?thesis unfolding new froot .
  qed
qed

lemma find_acl_index_None: "find_acl_index as t = None \<longleftrightarrow> t \<notin> set (map acl_username as)"
  by (induction as) auto

lemma find_acl_index_Some: "find_acl_index as t = Some i \<Longrightarrow> i < length as \<and> acl_username (as ! i) = t"
proof (induction as arbitrary: i)
  case Nil
  then show ?case by simp
next
  case (Cons a as)
  then show ?case by (auto split: if_splits)
qed

lemma usernames_perm_update:
  "i < length as \<Longrightarrow>
   map acl_username (as[i := (as ! i)\<lparr>acl_permission := p\<rparr>]) = map acl_username as"
  by (simp add: list_eq_iff_nth_eq nth_list_update)

lemma grant_preserves:
  assumes inv: "acl_invariant root" and ne: "strncpy 63 target \<noteq> owner"
  shows "acl_invariant (snd (search_grant_permission root f owner target perm))"
proof (cases "find_file_record root f")
  case None
  then show ?thesis using inv by (simp add: search_grant_permission_def)
next
  case (Some rec0)
  have rinv: "owner_not_in_acl rec0" using inv Some by (auto simp: acl_invariant_def)
  show ?thesis
  proof (cases "owner_username rec0 \<noteq> owner")
    case True
    then show ?thesis using inv Some by (simp add: search_grant_permission_def)
  next
    case own: False
    have key: "\<And>r'. owner_not_in_acl r' \<Longrightarrow> acl_invariant (set_file_record root f (Some r'))"
      unfolding acl_invariant_def
    proof (intro allI impI)
      fix r' name r
      assume r': "owner_not_in_acl r'"
        and f: "find_file_record (set_file_record root f (Some r')) name = Some r"
      from find_set_cases[of root f "Some r'" name] f
      have "find_file_record root name = Some r \<or> r = r'" by auto
      then show "owner_not_in_acl r" using r' inv by (auto simp: acl_invariant_def)
    qed
    show ?thesis
    proof (cases "find_acl_index (acl rec0) target")
      case (Some i)
      from find_acl_index_Some[OF Some] have il: "i < length (acl rec0)" by simp
      have "owner_not_in_acl (rec0\<lparr>acl := (acl rec0)[i := (acl rec0 ! i)\<lparr>acl_permission := perm\<rparr>]\<rparr>)"
        using rinv usernames_perm_update[OF il] by (simp add: owner_not_in_acl_def)
      then show ?thesis
        using key own Some \<open>find_file_record root f = Some rec0\<close>
        by (simp add: search_grant_permission_def)
    next
      case None
      show ?thesis
      proof (cases "length (acl rec0) \<ge> MAX_ACL_ENTRIES")
        case True
        then show ?thesis
          using inv own None \<open>find_file_record root f = Some rec0\<close>
          by (simp add: search_grant_permission_def)
      next
        case False
        have "owner_not_in_acl (rec0\<lparr>acl := acl rec0 @
                [\<lparr>acl_username = strncpy 63 target, acl_permission = perm\<rparr>]\<rparr>)"
          using rinv ne own by (auto simp: owner_not_in_acl_def)
        then show ?thesis
          using key own None False \<open>find_file_record root f = Some rec0\<close>
          by (simp add: search_grant_permission_def)
      qed
    qed
  qed
qed

lemma link_preserves:
  assumes inv: "acl_invariant root"
    and lk: "\<And>fi r. link fi = Some r \<Longrightarrow> fi = Some r \<or> owner_not_in_acl r"
  shows "acl_invariant (walk_create root f link)"
  unfolding acl_invariant_def
proof (intro allI impI)
  fix name r
  assume f: "find_file_record (walk_create root f link) name = Some r"
  from find_walk_create_cases[of root f link name] f
  have "find_file_record root name = Some r \<or> link (find_file_record root f) = Some r" by auto
  then show "owner_not_in_acl r"
  proof
    assume "find_file_record root name = Some r"
    then show ?thesis using inv by (auto simp: acl_invariant_def)
  next
    assume "link (find_file_record root f) = Some r"
    from lk[OF this] show ?thesis using inv by (auto simp: acl_invariant_def)
  qed
qed

text \<open>
  Claim C9 says that a grant whose target is the owner keeps the owner out of the ACL.
  \<open>search_grant_permission\<close> has no such test: alice, owner of \<open>f\<close>, granting READ to
  alice gets result 0 and an ACL entry of her own.
\<close>

theorem grant_to_owner_enters_acl:
  "map_option owner_not_in_acl (find_file_record trie_f ''f'') = Some True \<and>
   fst (search_grant_permission trie_f ''f'' ''alice'' ''alice'' PERM_READ) = 0 \<and>
   map_option owner_not_in_acl
     (find_file_record (snd (search_grant_permission trie_f ''f'' ''alice'' ''alice'' PERM_READ)) ''f'')
     = Some False"
  by code_simp

text \<open>
  Claim C9, amended. The trie starts without records; \<open>search_add_file\<close> keeps the
  invariant that no record has an ACL entry named as its owner; a grant keeps it
  whenever the target name, as stored (its first 63 bytes), differs from the requesting
  owner; \<open>search_rebuild_add_file\<close> keeps it whenever the record built from the payload
  satisfies it. Nothing is promised for a grant to the owner, nor for a payload that
  lists the owner.
\<close>

theorem acl_invariant_preserved:
  "acl_invariant create_node \<and>
   (\<forall>root f ss owner. acl_invariant root \<longrightarrow> acl_invariant (search_add_file root f ss owner)) \<and>
   (\<forall>root f owner target perm. acl_invariant root \<and> strncpy 63 target \<noteq> owner \<longrightarrow>
      acl_invariant (snd (search_grant_permission root f owner target perm))) \<and>
   (\<forall>root ss p. acl_invariant root \<and> owner_not_in_acl (payload_record ss p) \<longrightarrow>
      acl_invariant (search_rebuild_add_file root ss p))"
proof (intro conjI allI impI)
  show "acl_invariant create_node"
    by (simp add: acl_invariant_def find_create_node)
next
  fix root f ss owner
  assume inv: "acl_invariant root"
  show "acl_invariant (search_add_file root f ss owner)"
    unfolding search_add_file_def
    by (rule link_preserves[OF inv]) (auto simp: owner_not_in_acl_def split: option.splits)
next
  fix root f owner target perm
  assume "acl_invariant root \<and> strncpy 63 target \<noteq> owner"
  then show "acl_invariant (snd (search_grant_permission root f owner target perm))"
    using grant_preserves by blast
next
  fix root ss p
  assume a: "acl_invariant root \<and> owner_not_in_acl (payload_record ss p)"
  show "acl_invariant (search_rebuild_add_file root ss p)"
    unfolding search_rebuild_add_file_def
    by (rule link_preserves) (use a in \<open>auto split: option.splits if_splits\<close>)
qed

text \<open>The amended claim at work: bob is granted WRITE on alice's file \<open>f\<close>.\<close>

theorem acl_invariant_preserved_witness:
  "acl_invariant trie_f \<and> strncpy 63 ''bob'' \<noteq> ''alice'' \<and>
   acl_invariant (snd (search_grant_permission trie_f ''f'' ''alice'' ''bob'' PERM_WRITE)) \<and>
   map_option (map acl_username \<circ> acl)
     (find_file_record (snd (search_grant_permission trie_f ''f'' ''alice'' ''bob'' PERM_WRITE)) ''f'')
     = Some [''bob'']"
proof -
  have t: "acl_invariant trie_f"
    unfolding trie_f_def
    using acl_invariant_preserved[THEN conjunct1]
      acl_invariant_preserved[THEN conjunct2, THEN conjunct1, rule_format, of create_node]
    by blast
  have n: "strncpy 63 ''bob'' \<noteq> ''alice''" by code_simp
  have g: "acl_invariant (snd (search_grant_permission trie_f ''f'' ''alice'' ''bob'' PERM_WRITE))"
    using acl_invariant_preserved[THEN conjunct2, THEN conjunct2, THEN conjunct1, rule_format,
        of trie_f "''bob''" "''alice''" "''f''" PERM_WRITE] t n by blast
  have e: "map_option (map acl_username \<circ> acl)
     (find_file_record (snd (search_grant_permission trie_f ''f'' ''alice'' ''bob'' PERM_WRITE)) ''f'')
     = Some [''bob'']"
    by code_simp
  show ?thesis using t n g e by blast
qed

section \<open>Deleting a file\<close>

lemma strict_walk_find:
  "\<forall>c\<in>set f. valid_index c \<Longrightarrow>
   find_file_record root f = (case find_node_strict root f of None \<Rightarrow> None | Some n \<Rightarrow> file_info n)"
proof (induction f arbitrary: root)
  case Nil
  then show ?case by simp
next
  case (Cons c cs)
  then show ?case by (cases "child root (char_index c)") simp_all
qed

lemma find_store_strict:
  "\<forall>c\<in>set f. valid_index c \<Longrightarrow> find_node_strict root f = Some n \<Longrightarrow>
   find_file_record (store_strict root f v) f = v"
proof (induction f arbitrary: root)
  case Nil
  then show ?case by simp
next
  case (Cons c cs)
  show ?case
  proof (cases "child root (char_index c)")
    case None
    then show ?thesis using Cons.prems by simp
  next
    case (Some nxt)
    have il: "char_index c < length (children root)"
      using Some by (simp add: child_def split: if_splits)
    have "find_node_strict nxt cs = Some n" using Cons.prems Some by simp
    then have "find_file_record (store_strict nxt cs v) cs = v" using Cons.IH Cons.prems(1) by simp
    then show ?thesis using Some Cons.prems(1) il by (simp add: child_def)
  qed
qed

lemma invalidate_removes:
  "distinct (map ce_filename (filter is_valid c)) \<Longrightarrow> cache_find f c = Some i \<Longrightarrow>
   cache_find f (c[i := (c ! i)\<lparr>is_valid := False\<rparr>]) = None"
proof (induction c arbitrary: i)
  case Nil
  then show ?case by simp
next
  case (Cons e es)
  show ?case
  proof (cases "is_valid e \<and> ce_filename e = f")
    case True
    then have i0: "i = 0" using Cons.prems(2) by simp
    have "f \<notin> set (map ce_filename (filter is_valid es))" using True Cons.prems(1) by auto
    then have "cache_find f es = None" unfolding cache_find_None_iff by auto
    then show ?thesis using i0 by simp
  next
    case False
    then obtain i' where i': "i = Suc i'" "cache_find f es = Some i'"
      using Cons.prems(2) by auto
    have "distinct (map ce_filename (filter is_valid es))"
      using Cons.prems(1) by (cases "is_valid e") simp_all
    from Cons.IH[OF this i'(2)] show ?thesis using False i'(1) by simp
  qed
qed

lemma cache_invalidate_find:
  "distinct (map ce_filename (filter is_valid c)) \<Longrightarrow> cache_find f (cache_invalidate f c) = None"
  by (cases "cache_find f c") (simp_all add: cache_invalidate_def invalidate_removes)

lemma find_after_delete:
  assumes "find_file_record root' f = None" and "cache_find f cache' = None"
  shows "fst (search_find_file now f (root', cache')) = - 1"
  using assms by (simp add: search_find_file_def cache_lookup_def trie_ss_index_def)

text \<open>
  Claim C2 says that delete succeeds whenever the file exists and the requester owns it.
  \<open>search_add_file\<close> and \<open>find_file_record\<close> skip a byte outside the 7-bit character set,
  \<open>search_delete_file\<close> answers "not found" on it: the file named by the single byte
  \<open>0xE9\<close>, created by alice, is found by a lookup and owned by alice, and her delete
  request is answered with "File not found.".
\<close>

theorem delete_refuses_existing_file:
  "map_option owner_username (find_file_record trie_e9 [CHR 0xE9]) = Some ''alice'' \<and>
   fst (search_find_file 100 [CHR 0xE9] (trie_e9, init_cache)) = 0 \<and>
   fst (search_delete_file trie_e9 [CHR 0xE9] ''alice'') = - 1 \<and>
   fst (handle_delete_request [CHR 0xE9] ''alice'' (trie_e9, init_cache)) = MSG_ERROR ''File not found.''"
  by code_simp

text \<open>
  Claim C2, amended to file names made of 7-bit bytes. For such a name \<open>f\<close> and a cache
  holding at most one valid entry per name: when no record is found the result is \<open>-1\<close>
  and the client gets "File not found."; when the requester is not the owner the result
  is \<open>-2\<close> and the client gets "Access Denied"; in both cases trie and cache are
  unchanged. When the requester is the owner the result is the record's \<open>ss_index\<close>, the
  record is unlinked so that the trie no longer finds \<open>f\<close>, and (server indices being
  non-negative) the client gets an ACK, the cache entry of \<open>f\<close> is invalidated and a
  following \<open>search_find_file\<close> returns \<open>-1\<close>.
\<close>

theorem delete_owner_only:
  "\<forall>root cache f u now.
     (\<forall>c\<in>set f. valid_index c) \<and> distinct (map ce_filename (filter is_valid cache)) \<longrightarrow>
     (case find_file_record root f of
        None \<Rightarrow>
          search_delete_file root f u = (- 1, root) \<and>
          handle_delete_request f u (root, cache) = (MSG_ERROR ''File not found.'', (root, cache))
      | Some r \<Rightarrow>
          if owner_username r \<noteq> u
          then search_delete_file root f u = (- 2, root) \<and>
               handle_delete_request f u (root, cache) =
                 (MSG_ERROR ''Access Denied (Only owner can delete).'', (root, cache))
          else search_delete_file root f u = (fr_ss_index r, store_strict root f None) \<and>
               find_file_record (store_strict root f None) f = None \<and>
               (0 \<le> fr_ss_index r \<longrightarrow>
                  handle_delete_request f u (root, cache) =
                    (MSG_ACK, (store_strict root f None, cache_invalidate f cache)) \<and>
                  cache_find f (cache_invalidate f cache) = None \<and>
                  fst (search_find_file now f (store_strict root f None, cache_invalidate f cache))
                    = - 1))"
proof (intro allI impI)
  fix root :: TrieNode and cache :: "CacheEntry list" and f u :: string and now :: int
  assume a: "(\<forall>c\<in>set f. valid_index c) \<and> distinct (map ce_filename (filter is_valid cache))"
  then have vf: "\<forall>c\<in>set f. valid_index c"
    and dc: "distinct (map ce_filename (filter is_valid cache))" by simp_all
  note sw = strict_walk_find[OF vf, of root]
  show "case find_file_record root f of
        None \<Rightarrow>
          search_delete_file root f u = (- 1, root) \<and>
          handle_delete_request f u (root, cache) = (MSG_ERROR ''File not found.'', (root, cache))
      | Some r \<Rightarrow>
          if owner_username r \<noteq> u
          then search_delete_file root f u = (- 2, root) \<and>
               handle_delete_request f u (root, cache) =
                 (MSG_ERROR ''Access Denied (Only owner can delete).'', (root, cache))
          else search_delete_file root f u = (fr_ss_index r, store_strict root f None) \<and>
               find_file_record (store_strict root f None) f = None \<and>
               (0 \<le> fr_ss_index r \<longrightarrow>
                  handle_delete_request f u (root, cache) =
                    (MSG_ACK, (store_strict root f None, cache_invalidate f cache)) \<and>
                  cache_find f (cache_invalidate f cache) = None \<and>
                  fst (search_find_file now f (store_strict root f None, cache_invalidate f cache))
                    = - 1)"
  proof (cases "find_file_record root f")
    case None
    then have d: "search_delete_file root f u = (- 1, root)"
      using sw by (auto simp: search_delete_file_def split: option.splits)
    show ?thesis using None d by (simp add: handle_delete_request_def)
  next
    case (Some r)
    then obtain n where n: "find_node_strict root f = Some n" "file_info n = Some r"
      using sw by (auto split: option.splits)
    show ?thesis
    proof (cases "owner_username r \<noteq> u")
      case True
      then have d: "search_delete_file root f u = (- 2, root)"
        using n by (simp add: search_delete_file_def)
      show ?thesis using Some True d by (simp add: handle_delete_request_def)
    next
      case False
      then have d: "search_delete_file root f u = (fr_ss_index r, store_strict root f None)"
        using n by (simp add: search_delete_file_def)
      have gone: "find_file_record (store_strict root f None) f = None"
        using find_store_strict[OF vf n(1)] .
      have ci: "cache_find f (cache_invalidate f cache) = None"
        using cache_invalidate_find[OF dc] .
      have after: "fst (search_find_file now f (store_strict root f None, cache_invalidate f cache)) = - 1"
        using find_after_delete[OF gone ci] .
      have h: "0 \<le> fr_ss_index r \<Longrightarrow> handle_delete_request f u (root, cache) =
                    (MSG_ACK, (store_strict root f None, cache_invalidate f cache))"
        using d by (simp add: handle_delete_request_def)
      show ?thesis using Some False d gone ci after h by simp
    qed
  qed
qed

text \<open>
  The amended claim at work on alice's file \<open>f\<close>, cached by an earlier lookup: bob is
  denied, alice's delete is acknowledged, and the file is gone from trie and cache.
\<close>

theorem delete_owner_only_witness:
  "(\<forall>c\<in>set ''f''. valid_index c) \<and> distinct (map ce_filename (filter is_valid cache_f)) \<and>
   cache_find ''f'' cache_f = Some 0 \<and>
   fst (handle_delete_request ''f'' ''bob'' (trie_f, cache_f))
     = MSG_ERROR ''Access Denied (Only owner can delete).'' \<and>
   handle_delete_request ''f'' ''alice'' (trie_f, cache_f)
     = (MSG_ACK, (store_strict trie_f ''f'' None, cache_invalidate ''f'' cache_f)) \<and>
   fst (search_find_file 101 ''f'' (store_strict trie_f ''f'' None, cache_invalidate ''f'' cache_f))
     = - 1"
proof -
  have h: "(\<forall>c\<in>set ''f''. valid_index c) \<and> distinct (map ce_filename (filter is_valid cache_f))"
    by code_simp
  have c0: "cache_find ''f'' cache_f = Some 0" by code_simp
  have fr: "map_option (\<lambda>r. (owner_username r, fr_ss_index r)) (find_file_record trie_f ''f'')
      = Some (''alice'', 0)" by code_simp
  then obtain r where r: "find_file_record trie_f ''f'' = Some r" "owner_username r = ''alice''"
    "fr_ss_index r = 0" by auto
  have bob: "fst (handle_delete_request ''f'' ''bob'' (trie_f, cache_f))
     = MSG_ERROR ''Access Denied (Only owner can delete).''"
    using delete_owner_only[rule_format, OF h, of trie_f "''bob''"] r by simp
  have alice: "handle_delete_request ''f'' ''alice'' (trie_f, cache_f)
       = (MSG_ACK, (store_strict trie_f ''f'' None, cache_invalidate ''f'' cache_f)) \<and>
     fst (search_find_file 101 ''f'' (store_strict trie_f ''f'' None, cache_invalidate ''f'' cache_f))
       = - 1"
    using delete_owner_only[rule_format, OF h, of trie_f "''alice''" 101] r by simp
  show ?thesis using h c0 bob alice by blast
qed

section \<open>Undo\<close>

text \<open>
  Claim C3 (undo monotonicity) says that after N commits the (N+1)-th undo is refused
  and that N undos restore the initial content. The log line written by a commit,
  \<open><time>|<backup>|<user>\<close>, is parsed with \<open>%127[^|]\<close> for the user, which takes the
  newline into the user name; the rewritten log then carries the used bit on a line of
  its own, which no later parse accepts, so every entry reads as unused again. In
  scenario S3 the second undo is not refused: it restores the same backup and reports
  success. After two commits, two undos restore the content before the second commit
  twice and never reach the initial content \<open>one. two.\<close>.
\<close>

theorem undo_used_bit_lost:
  "fst (ss_run ss_a (write_big @ undo_a 1001 @ undo_a 1002)) =
     [''OK_200 WRITE MODE ENABLED'', ''OK_200 CONTENT INSERTED'', ''OK_200 WRITE COMPLETED'',
      ''OK_200 UNDO COMPLETED'', ''OK_200 UNDO COMPLETED''] \<and>
   files (snd (ss_run ss_a write_big)) ''a'' = Some ''one big. two.'' \<and>
   files (snd (ss_run ss_a (write_big @ undo_a 1001))) ''a'' = Some ''one. two.'' \<and>
   undo_dir (snd (ss_run ss_a (write_big @ undo_a 1001))) ''a.undo'' =
     Some ''1000|a_1000.bak|alice\<newline>|1\<newline>'' \<and>
   map be_used (read_backups ''1000|a_1000.bak|alice\<newline>|1\<newline>'') = [0] \<and>
   files (snd (ss_run ss_a (write_big @ write_very))) ''a'' = Some ''one very big. two.'' \<and>
   files (snd (ss_run ss_a (write_big @ write_very @ undo_a 1002 @ undo_a 1003))) ''a''
     = Some ''one big. two.''"
  by code_simp

section \<open>Undo while a sentence is locked\<close>

text \<open>
  Claim C6 says that an undo is refused while a sentence lock on the file is held,
  whether it comes as the UNDO command of a client or as the undo message forwarded by
  the name server. The UNDO command tests the lock table; \<open>case MSG_UNDO\<close> of
  \<open>handle_ns_commands\<close> calls \<open>perform_undo\<close> without the test. With bob holding the lock
  on sentence 1 of \<open>a\<close>, the client command is refused and the forwarded undo rewrites
  the file.
\<close>

theorem ns_undo_ignores_locks:
  "file_locked (sentence_locks ss_a_locked) ''a'' \<and>
   files ss_a_locked ''a'' = Some ''one big. two.'' \<and>
   fst (handle_undo ss_a_locked ''a'') = [''ERR_409 Cannot undo: file is currently being edited''] \<and>
   files (snd (handle_undo ss_a_locked ''a'')) ''a'' = Some ''one big. two.'' \<and>
   fst (handle_ns_undo ss_a_locked ''a'') \<and>
   files (snd (handle_ns_undo ss_a_locked ''a'')) ''a'' = Some ''one. two.'' \<and>
   file_locked (sentence_locks (snd (handle_ns_undo ss_a_locked ''a''))) ''a''"
  by code_simp

section \<open>Checkpoints\<close>

text \<open>
  Claim C7 says that a checkpoint fails with a conflict only if the same file already
  has a checkpoint with that tag, checkpoints of other files never causing it. The
  checkpoint of file \<open>F\<close> with tag \<open>T\<close> is the file \<open>F_T.checkpoint\<close>: after the
  checkpoint of \<open>a_b\<close> with tag \<open>c\<close>, the first checkpoint of \<open>a\<close> with tag \<open>b_c\<close> finds
  \<open>a_b_c.checkpoint\<close> and is answered with the conflict, while the meta log of \<open>a\<close>
  is still missing.
\<close>

theorem checkpoint_conflict_across_files:
  "fst (ss_run ss_two [(4, ''alice'', 1000, ''CHECKPOINT a_b c'' @ LF),
                       (4, ''alice'', 1001, ''CHECKPOINT a b_c'' @ LF)]) =
     [''OK_200 CHECKPOINT CREATED'', ''ERR_409 Checkpoint tag already exists''] \<and>
   checkpoint_meta (snd (ss_run ss_two [(4, ''alice'', 1000, ''CHECKPOINT a_b c'' @ LF)])) ''a.meta''
     = None \<and>
   checkpoint_meta (snd (ss_run ss_two [(4, ''alice'', 1000, ''CHECKPOINT a_b c'' @ LF)])) ''a_b.meta''
     = Some ''1000|c|alice|1\<newline>'' \<and>
   checkpoints (snd (ss_run ss_two [(4, ''alice'', 1000, ''CHECKPOINT a_b c'' @ LF)])) ''a_b_c.checkpoint''
     = Some ''y'' \<and>
   fst (create_checkpoint (snd (ss_run ss_two [(4, ''alice'', 1000, ''CHECKPOINT a_b c'' @ LF)]))
          ''a'' ''b_c'' ''alice'' 1001) = - 2"
  by code_simp

section \<open>One sentence lock per connection\<close>






















section \<open>The merge at commit\<close>

lemma file_words_nonempty: "\<forall>w\<in>set (file_words b). w \<noteq> []"
  unfolding file_words_def by (rule tokenize_nonempty_words)

lemma file_sentence_words:
  assumes "si \<in> set (file_sentences b)"
  shows "sentence_words (file_words b) si \<noteq> [] \<and>
         (\<forall>w\<in>set (sentence_words (file_words b) si). w \<noteq> [])"
proof -
  from assms parse_sentences_range[of "file_words b"]
  have r: "start_word_idx si \<le> end_word_idx si" "end_word_idx si < length (file_words b)"
    by (auto simp: file_sentences_def)
  from sentence_words_nonempty[OF r] file_words_nonempty[of b] show ?thesis by blast
qed

lemma swap_name_differs: "swap_name f t fd \<noteq> f"
proof
  assume "swap_name f t fd = f"
  then have "length (swap_name f t fd) = length f" by simp
  then show False by (simp add: swap_name_def)
qed

lemma words_of_bytes:
  "(if fread_8k b \<noteq> [] then tokenize (c_str (fread_8k b)) else []) = file_words b"
  by (simp add: file_words_def c_str_empty tokenize_empty)

lemma parse_sentences_empty: "parse_sentences [] = []"
  by (simp add: parse_sentences_def)

lemma sentences_of_bytes:
  "(if fread_8k b \<noteq> [] then parse_sentences (file_words b) else []) = file_sentences b"
proof (cases "fread_8k b = []")
  case True
  then have "file_words b = []" by (simp add: file_words_def c_str_empty tokenize_empty)
  then show ?thesis using True by (simp add: file_sentences_def parse_sentences_empty)
next
  case False
  then show ?thesis by (simp add: file_sentences_def)
qed

text \<open>The merge written as one list of words.\<close>

lemma merge_content_words:
  assumes t1: "1 \<le> t" and tn: "t \<le> int (length (file_sentences lb))"
  shows "merge_content lc (file_words lb) (file_sentences lb) sc (file_words sb) (file_sentences sb) t
    = join_words
        (concat (map (sentence_words (file_words lb)) (take (nat (t - 1)) (file_sentences lb))) @
         (if t \<le> int (length (file_sentences sb))
          then sentence_words (file_words sb) (file_sentences sb ! nat (t - 1)) else []) @
         concat (map (sentence_words (file_words lb)) (drop (nat t) (file_sentences lb))))"
proof -
  let ?W = "sentence_words (file_words lb)"
  let ?before = "take (nat (t - 1)) (file_sentences lb)"
  let ?after = "drop (nat t) (file_sentences lb)"
  have ne: "file_sentences lb \<noteq> []" using t1 tn by auto
  have nb: "\<not> t > int (length (file_sentences lb))" using tn by simp
  have okb: "\<forall>si\<in>set ?before. ?W si \<noteq> [] \<and> (\<forall>w\<in>set (?W si). w \<noteq> [])"
    using file_sentence_words[of _ lb] by (meson in_set_takeD)
  have oka: "\<forall>si\<in>set ?after. ?W si \<noteq> [] \<and> (\<forall>w\<in>set (?W si). w \<noteq> [])"
    using file_sentence_words[of _ lb] by (meson in_set_dropD)
  have f1: "fold (\<lambda>si final. strcat_sentence final (?W si)) ?before [] = join_words (concat (map ?W ?before))"
    using fold_strcat_sentences[of "[]" ?before ?W] okb by simp
  have p1: "\<forall>w\<in>set (concat (map ?W ?before)). w \<noteq> []" using okb by auto
  show ?thesis
  proof (cases "t \<le> int (length (file_sentences sb))")
    case True
    let ?T = "sentence_words (file_words sb) (file_sentences sb ! nat (t - 1))"
    have "file_sentences sb ! nat (t - 1) \<in> set (file_sentences sb)" using True t1 by simp
    from file_sentence_words[OF this] have T: "?T \<noteq> []" "\<forall>w\<in>set ?T. w \<noteq> []" by simp_all
    have f2: "strcat_sentence (join_words (concat (map ?W ?before))) ?T
        = join_words (concat (map ?W ?before) @ ?T)"
      using strcat_sentence_join[OF p1 T(1)] .
    have p2: "\<forall>w\<in>set (concat (map ?W ?before) @ ?T). w \<noteq> []" using p1 T(2) by auto
    have f3: "fold (\<lambda>si final. strcat_sentence final (?W si)) ?after
                (join_words (concat (map ?W ?before) @ ?T))
        = join_words ((concat (map ?W ?before) @ ?T) @ concat (map ?W ?after))"
      using fold_strcat_sentences[OF p2 oka] .
    have lt: "t - 1 < int (length (file_sentences sb))" using True by simp
    show ?thesis
      unfolding merge_content_def Let_def using ne nb lt True f1 f2 f3 by simp
  next
    case False
    have f3: "fold (\<lambda>si final. strcat_sentence final (?W si)) ?after
                (join_words (concat (map ?W ?before)))
        = join_words (concat (map ?W ?before) @ concat (map ?W ?after))"
      using fold_strcat_sentences[OF p1 oka] .
    have lt: "\<not> t - 1 < int (length (file_sentences sb))" using False by simp
    show ?thesis
      unfolding merge_content_def Let_def using ne nb lt False f1 f3 by simp
  qed
qed

lemma commit_writes_merge:
  assumes live: "files s f = Some lb" and swap: "files s (swap_name f t fd) = Some sb"
  shows "files (snd (handle_commit s fd u now f t)) f =
     Some (merge_content (c_str (fread_8k lb)) (file_words lb) (file_sentences lb)
             (c_str (fread_8k sb)) (file_words sb) (file_sentences sb) t)"
proof -
  have b: "files (snd (create_file_backup s f u now)) f = Some lb"
    by (simp add: create_file_backup_def Let_def live)
  have "files (snd (handle_commit s fd u now f t)) f =
     Some (merge_content (c_str (fread_8k lb))
             (if fread_8k lb \<noteq> [] then tokenize (c_str (fread_8k lb)) else [])
             (if fread_8k lb \<noteq> []
              then parse_sentences (if fread_8k lb \<noteq> [] then tokenize (c_str (fread_8k lb)) else [])
              else [])
             (c_str (fread_8k sb))
             (if fread_8k sb \<noteq> [] then tokenize (c_str (fread_8k sb)) else [])
             (if fread_8k sb \<noteq> []
              then parse_sentences (if fread_8k sb \<noteq> [] then tokenize (c_str (fread_8k sb)) else [])
              else []) t)"
    unfolding handle_commit_def Let_def
    using swap b swap_name_differs[of f t fd]
    by simp
  then show ?thesis
    unfolding words_of_bytes sentences_of_bytes .
qed

lemma commit_line:
  assumes "get_client_write_info (sentence_locks s) fd = Some (f, t)"
    and "take 5 (recv_line bytes) = ''ETIRW''"
  shows "client_handler_line s fd u now bytes = Some (handle_commit s fd u now f t)"
  using assms by (simp add: client_handler_line_def Let_def)

lemma commit_reply:
  assumes "files s (swap_name f t fd) = Some sb"
  shows "fst (handle_commit s fd u now f t) = [''OK_200 WRITE COMPLETED'']"
    and "files (snd (handle_commit s fd u now f t)) (swap_name f t fd) = None"
  using assms by (simp_all add: handle_commit_def Let_def)

text \<open>The merge of texts within the limits, in the sentences of the texts.\<close>

lemma merge_content_text:
  assumes ll: "within_limits lb" and ls: "within_limits sb"
    and t1: "1 \<le> t" and tn: "t \<le> int (length (text_sentences lb))"
    and ts: "t \<le> int (length (text_sentences sb))"
  shows "merge_content (c_str (fread_8k lb)) (file_words lb) (file_sentences lb)
           (c_str (fread_8k sb)) (file_words sb) (file_sentences sb) t
       = merged_text lb sb t"
proof -
  have tn': "t \<le> int (length (file_sentences lb))"
    using tn within_limits_sentences(1)[OF ll] by simp
  have ts': "t \<le> int (length (file_sentences sb))"
    using ts within_limits_sentences(1)[OF ls] by simp
  have k: "nat (t - 1) < length (text_sentences sb)" using t1 ts by simp
  have b: "concat (map (sentence_words (file_words lb)) (take (nat (t - 1)) (file_sentences lb)))
      = concat (take (nat (t - 1)) (text_sentences lb))"
    using within_limits_sentences(2)[OF ll] by (metis take_map)
  have a: "concat (map (sentence_words (file_words lb)) (drop (nat t) (file_sentences lb)))
      = concat (drop (nat t) (text_sentences lb))"
    using within_limits_sentences(2)[OF ll] by (metis drop_map)
  have m: "sentence_words (file_words sb) (file_sentences sb ! nat (t - 1))
      = text_sentences sb ! nat (t - 1)"
    using within_limits_sentence(1)[OF ls k] .
  show ?thesis
    unfolding merge_content_words[OF t1 tn'] merged_text_def b a m using ts' by simp
qed

text \<open>
  X opens the second sentence of a file that has none yet, so its swap holds its words
  as the only sentence; by the time X commits, Y has given the file two sentences. The
  commit finds no second sentence in the swap: the second sentence of the file is
  removed, the words of X are not written, and every reply is a success.
\<close>

theorem commit_drops_target_sentence:
  "fst (ss_run ss_blank (blank_edits @ commit_X 1002)) =
     [''OK_200 WRITE MODE ENABLED'', ''OK_200 WRITE MODE ENABLED'', ''OK_200 CONTENT INSERTED'',
      ''OK_200 CONTENT INSERTED'', ''OK_200 WRITE COMPLETED'', ''OK_200 WRITE COMPLETED''] \<and>
   get_client_write_info (sentence_locks (snd (ss_run ss_blank blank_edits))) 4 = Some (''w'', 2) \<and>
   files (snd (ss_run ss_blank blank_edits)) ''w'' = Some ('' '' @ LF @ '' A. B.'') \<and>
   text_sentences ('' '' @ LF @ '' A. B.'') = [[''A.''], [''B.'']] \<and>
   files (snd (ss_run ss_blank blank_edits)) (swap_name ''w'' 2 4) = Some ('' '' @ LF @ '' X.'') \<and>
   text_sentences ('' '' @ LF @ '' X.'') = [[''X.'']] \<and>
   files (snd (ss_run ss_blank (blank_edits @ commit_X 1002))) ''w'' = Some ''A.''"
  by code_simp

text \<open>
  Claim C1, with the sizes of the engine. A connection in WRITE mode on sentence \<open>t\<close> of
  file \<open>f\<close> (a name of at most 255 bytes) sends \<open>ETIRW\<close> while its swap exists. The live file and the swap are texts
  within the limits (no NUL byte, at most 8191 bytes, at most 1024 words of at most 511
  bytes, at most 256 sentences); the live file has sentences \<open>1..n\<close> with \<open>1 \<le> t \<le> n\<close>, the
  swap has a sentence \<open>t\<close>, and the merge has at most 8191 bytes. Then the commit is
  answered \<open>OK_200 WRITE COMPLETED\<close>, the swap is removed, and the live file becomes the
  sentences of the live file before \<open>t\<close>, sentence \<open>t\<close> of the swap and the sentences of the
  live file after \<open>t\<close>, joined by single spaces. In scenario S2, A inserting \<open>cruel\<close> at
  position 3 of sentence 1 and B inserting \<open>Farewell\<close> at position 1 of sentence 2, the
  commits in either order leave \<open>Hello world cruel. Farewell Goodbye world.\<close>
\<close>

theorem commit_merges_target_sentence:
  "(\<forall>s fd u now bytes f t lb sb.
      get_client_write_info (sentence_locks s) fd = Some (f, t) \<and> int (length f) \<le> 255 \<and>
      take 5 (recv_line bytes) = ''ETIRW'' \<and>
      files s f = Some lb \<and> files s (swap_name f t fd) = Some sb \<and>
      within_limits lb \<and> within_limits sb \<and>
      1 \<le> t \<and> t \<le> int (length (text_sentences lb)) \<and>
      t \<le> int (length (text_sentences sb)) \<and>
      int (length (merged_text lb sb t)) \<le> 8191 \<longrightarrow>
      (\<exists>s'. client_handler_line s fd u now bytes = Some ([''OK_200 WRITE COMPLETED''], s') \<and>
        files s' f = Some (merged_text lb sb t) \<and> files s' (swap_name f t fd) = None)) \<and>
   files (snd (ss_run ss_doc (s2_edits @ commit_A 1001 @ commit_B 1002))) ''doc''
     = Some ''Hello world cruel. Farewell Goodbye world.'' \<and>
   files (snd (ss_run ss_doc (s2_edits @ commit_B 1001 @ commit_A 1002))) ''doc''
     = Some ''Hello world cruel. Farewell Goodbye world.''"
proof (intro conjI allI impI)
  fix s :: ss_state and fd :: int and u :: string and now :: int and bytes f :: string
    and t :: int and lb sb :: string
  assume a: "get_client_write_info (sentence_locks s) fd = Some (f, t) \<and> int (length f) \<le> 255 \<and>
      take 5 (recv_line bytes) = ''ETIRW'' \<and>
      files s f = Some lb \<and> files s (swap_name f t fd) = Some sb \<and>
      within_limits lb \<and> within_limits sb \<and>
      1 \<le> t \<and> t \<le> int (length (text_sentences lb)) \<and>
      t \<le> int (length (text_sentences sb)) \<and>
      int (length (merged_text lb sb t)) \<le> 8191"
  then have mode: "get_client_write_info (sentence_locks s) fd = Some (f, t)"
    and line: "take 5 (recv_line bytes) = ''ETIRW''"
    and live: "files s f = Some lb" and swap: "files s (swap_name f t fd) = Some sb"
    and ll: "within_limits lb" and ls: "within_limits sb"
    and t1: "1 \<le> t" and tn: "t \<le> int (length (text_sentences lb))"
    and ts: "t \<le> int (length (text_sentences sb))" by simp_all
  have c: "client_handler_line s fd u now bytes
      = Some ([''OK_200 WRITE COMPLETED''], snd (handle_commit s fd u now f t))"
    using commit_line[OF mode line, of u now] commit_reply(1)[OF swap, of u now]
    by (metis prod.collapse)
  have m: "files (snd (handle_commit s fd u now f t)) f = Some (merged_text lb sb t)"
    unfolding commit_writes_merge[OF live swap] merge_content_text[OF ll ls t1 tn ts] ..
  from c m commit_reply(2)[OF swap, of u now]
  show "\<exists>s'. client_handler_line s fd u now bytes = Some ([''OK_200 WRITE COMPLETED''], s') \<and>
        files s' f = Some (merged_text lb sb t) \<and> files s' (swap_name f t fd) = None"
    by blast
next
  show "files (snd (ss_run ss_doc (s2_edits @ commit_A 1001 @ commit_B 1002))) ''doc''
     = Some ''Hello world cruel. Farewell Goodbye world.''"
    by code_simp
next
  show "files (snd (ss_run ss_doc (s2_edits @ commit_B 1001 @ commit_A 1002))) ''doc''
     = Some ''Hello world cruel. Farewell Goodbye world.''"
    by code_simp
qed

text \<open>
  Claim C1 at A's commit in scenario S2: connection 4 is in WRITE mode on sentence 1 of
  \<open>doc\<close>, the live file is \<open>doc\<close> as created, the swap of connection 4 holds A's edit, and
  the commit writes A's sentence 1 followed by the live sentence 2.
\<close>

theorem commit_merges_target_sentence_witness:
  "get_client_write_info (sentence_locks (snd (ss_run ss_doc s2_edits))) 4 = Some (''doc'', 1) \<and>
   int (length ''doc'') \<le> 255 \<and>
   take 5 (recv_line (''ETIRW'' @ LF)) = ''ETIRW'' \<and>
   files (snd (ss_run ss_doc s2_edits)) ''doc'' = Some ''Hello world. Goodbye world.'' \<and>
   files (snd (ss_run ss_doc s2_edits)) (swap_name ''doc'' 1 4)
     = Some ''Hello world cruel. Goodbye world.'' \<and>
   within_limits ''Hello world. Goodbye world.'' \<and>
   within_limits ''Hello world cruel. Goodbye world.'' \<and>
   (1::int) \<le> 1 \<and> 1 \<le> int (length (text_sentences ''Hello world. Goodbye world.'')) \<and>
   1 \<le> int (length (text_sentences ''Hello world cruel. Goodbye world.'')) \<and>
   int (length (merged_text ''Hello world. Goodbye world.''
                  ''Hello world cruel. Goodbye world.'' 1)) \<le> 8191 \<and>
   (\<exists>s'.
      client_handler_line (snd (ss_run ss_doc s2_edits)) 4 ''A'' 1001 (''ETIRW'' @ LF)
        = Some ([''OK_200 WRITE COMPLETED''], s') \<and>
      files s' ''doc'' = Some ''Hello world cruel. Goodbye world.'' \<and>
      files s' (swap_name ''doc'' 1 4) = None)"
proof -
  have h: "get_client_write_info (sentence_locks (snd (ss_run ss_doc s2_edits))) 4
        = Some (''doc'', 1) \<and>
      int (length ''doc'') \<le> 255 \<and>
      take 5 (recv_line (''ETIRW'' @ LF)) = ''ETIRW'' \<and>
      files (snd (ss_run ss_doc s2_edits)) ''doc'' = Some ''Hello world. Goodbye world.'' \<and>
      files (snd (ss_run ss_doc s2_edits)) (swap_name ''doc'' 1 4)
        = Some ''Hello world cruel. Goodbye world.'' \<and>
      within_limits ''Hello world. Goodbye world.'' \<and>
      within_limits ''Hello world cruel. Goodbye world.'' \<and>
      (1::int) \<le> 1 \<and> 1 \<le> int (length (text_sentences ''Hello world. Goodbye world.'')) \<and>
      1 \<le> int (length (text_sentences ''Hello world cruel. Goodbye world.'')) \<and>
      int (length (merged_text ''Hello world. Goodbye world.''
                     ''Hello world cruel. Goodbye world.'' 1)) \<le> 8191"
    by code_simp
  have v: "merged_text ''Hello world. Goodbye world.'' ''Hello world cruel. Goodbye world.'' 1
      = ''Hello world cruel. Goodbye world.''"
    by code_simp
  have "\<exists>s'.
      client_handler_line (snd (ss_run ss_doc s2_edits)) 4 ''A'' 1001 (''ETIRW'' @ LF)
        = Some ([''OK_200 WRITE COMPLETED''], s') \<and>
      files s' ''doc'' = Some ''Hello world cruel. Goodbye world.'' \<and>
      files s' (swap_name ''doc'' 1 4) = None"
    using commit_merges_target_sentence[THEN conjunct1, rule_format, OF h, of "''A''" 1001]
    unfolding v .
  then show ?thesis using h by blast
qed

section \<open>Insert positions\<close>















text \<open>
  The position is what \<open>%d\<close> stores in the 32-bit \<open>word_idx\<close>: a number beyond its range
  is taken for another position.
\<close>

lemma insert_position_is_int32:
  "scan_insert ''4294967297 cruel'' = Some (1, ''cruel'') \<and>
   scan_insert ''2147483648 cruel'' = Some (- 2147483648, ''cruel'')"
  by code_simp





end
